theory Spec2Isabelle
  imports Main "HOL-Library.Sublist" "HOL-Library.Product_Lexorder"
begin

section \<open>Python strings\<close>

text \<open>
  A Python \<^verbatim>\<open>str\<close> is a sequence of Unicode code points; \<^verbatim>\<open>len\<close>, slicing,
  \<^verbatim>\<open>startswith\<close> and the \<^verbatim>\<open>re\<close> module all work on code points. A string is
  therefore a list of code points (the value of \<^verbatim>\<open>ord\<close>, an integer), and \<open>u\<close>
  embeds an ASCII literal.
\<close>

type_synonym pystr = "int list"

definition u :: "string \<Rightarrow> pystr" where
  "u s = map of_char s"

abbreviation (input) nl :: int where "nl \<equiv> 10"
abbreviation (input) amp :: int where "amp \<equiv> 38"
abbreviation (input) lt :: int where "lt \<equiv> 60"
abbreviation (input) gt :: int where "gt \<equiv> 62"
abbreviation (input) quot :: int where "quot \<equiv> 34"
abbreviation (input) dot :: int where "dot \<equiv> 46"
abbreviation (input) newspaper :: int where "newspaper \<equiv> 0x1F4F0"
abbreviation (input) page :: int where "page \<equiv> 0x1F4C4"

definition startswith :: "pystr \<Rightarrow> pystr \<Rightarrow> bool" where
  "startswith s p = prefix p s"

definition endswith :: "pystr \<Rightarrow> pystr \<Rightarrow> bool" where
  "endswith s p = suffix p s"

text \<open>
  \<^verbatim>\<open>str.strip()\<close> without argument removes the characters for which
  \<^verbatim>\<open>str.isspace\<close> holds from both ends.
\<close>

definition py_isspace :: "int \<Rightarrow> bool" where
  "py_isspace c =
     ((9 \<le> c \<and> c \<le> 13) \<or> (28 \<le> c \<and> c \<le> 32) \<or> c = 0x85 \<or> c = 0xA0 \<or> c = 0x1680 \<or>
      (0x2000 \<le> c \<and> c \<le> 0x200A) \<or> c = 0x2028 \<or> c = 0x2029 \<or> c = 0x202F \<or>
      c = 0x205F \<or> c = 0x3000)"

definition py_lstrip :: "pystr \<Rightarrow> pystr" where
  "py_lstrip s = dropWhile py_isspace s"

definition py_rstrip :: "pystr \<Rightarrow> pystr" where
  "py_rstrip s = rev (dropWhile py_isspace (rev s))"

definition py_strip :: "pystr \<Rightarrow> pystr" where
  "py_strip s = py_rstrip (py_lstrip s)"

text \<open>\<^verbatim>\<open>s.rstrip(".")\<close>: every trailing period goes.\<close>

definition rstrip_dots :: "pystr \<Rightarrow> pystr" where
  "rstrip_dots s = rev (dropWhile (\<lambda>c. c = dot) (rev s))"

text \<open>\<^verbatim>\<open>s.split("\n")\<close>: never empty; the empty string gives one empty line.\<close>

fun split_nl :: "pystr \<Rightarrow> pystr list" where
  "split_nl [] = [[]]"
| "split_nl (c # s) =
     (if c = nl then [] # split_nl s
      else (case split_nl s of l # ls \<Rightarrow> (c # l) # ls | [] \<Rightarrow> [[c]]))"

text \<open>\<^verbatim>\<open>sep.join(xs)\<close>.\<close>

fun join :: "pystr \<Rightarrow> pystr list \<Rightarrow> pystr" where
  "join sep [] = []"
| "join sep [x] = x"
| "join sep (x # y # ys) = x @ sep @ join sep (y # ys)"

text \<open>
  \<^verbatim>\<open>s.replace(old, new)\<close> where \<^verbatim>\<open>old\<close> is a single character, which is how
  every call of the source uses it: each occurrence is replaced, left to right.
\<close>

definition replace_char :: "int \<Rightarrow> pystr \<Rightarrow> pystr \<Rightarrow> pystr" where
  "replace_char old new s = concat (map (\<lambda>c. if c = old then new else [c]) s)"

section \<open>Escaping\<close>

definition escape :: "pystr \<Rightarrow> pystr" where
  "escape text =
     replace_char quot (u ''&quot;'')
       (replace_char gt (u ''&gt;'')
         (replace_char lt (u ''&lt;'')
           (replace_char amp (u ''&amp;'') text)))"

text \<open>
  The escape operation as the specification words it: a table from characters to their
  replacements, every other character standing for itself.
\<close>

definition esc_char :: "int \<Rightarrow> pystr" where
  "esc_char c =
     (if c = amp then u ''&amp;'' else if c = lt then u ''&lt;''
      else if c = gt then u ''&gt;'' else if c = quot then u ''&quot;'' else [c])"

definition escape_spec :: "pystr \<Rightarrow> pystr" where
  "escape_spec text = concat (map esc_char text)"

definition special :: "int \<Rightarrow> bool" where
  "special c = (c = amp \<or> c = lt \<or> c = gt \<or> c = quot)"

section \<open>Regular expressions of the source\<close>

text \<open>
  The patterns of the source that capture a group have the shape
  \<^verbatim>\<open>OPEN(.+?)CLOSE\<close> with a literal \<^verbatim>\<open>CLOSE\<close>. \<open>lazy_group\<close> is the
  \<^verbatim>\<open>(.+?)CLOSE\<close> part, run on the text after the opening: the group is the shortest
  non-empty run of characters other than newline that is followed by \<^verbatim>\<open>CLOSE\<close>.
  It returns the group and the text after \<^verbatim>\<open>CLOSE\<close>.
\<close>

fun lazy_group :: "pystr \<Rightarrow> pystr \<Rightarrow> (pystr \<times> pystr) option" where
  "lazy_group cls [] = None"
| "lazy_group cls (c # s) =
     (if c = nl then None
      else if prefix cls s then Some ([c], drop (length cls) s)
      else (case lazy_group cls s of None \<Rightarrow> None | Some (g, r) \<Rightarrow> Some (c # g, r)))"

text \<open>A literal opening: the text after it, when the string starts with it.\<close>

definition lit :: "pystr \<Rightarrow> pystr \<Rightarrow> pystr option" where
  "lit p s = (if prefix p s then Some (drop (length p) s) else None)"

text \<open>
  \<^verbatim>\<open>re.search\<close> for such a pattern: the leftmost position at which the opening and
  then the lazy group match. The result is the text before the match, the group and the
  text after the match. (An opening never matches the empty string.)
\<close>

fun re_search :: "(pystr \<Rightarrow> pystr option) \<Rightarrow> pystr \<Rightarrow> pystr \<Rightarrow> (pystr \<times> pystr \<times> pystr) option" where
  "re_search opn cls [] = None"
| "re_search opn cls (c # s) =
     (case (case opn (c # s) of None \<Rightarrow> None | Some t \<Rightarrow> lazy_group cls t) of
        Some (g, r) \<Rightarrow> Some ([], g, r)
      | None \<Rightarrow>
          (case re_search opn cls s of
             None \<Rightarrow> None
           | Some (pre, g, r) \<Rightarrow> Some (c # pre, g, r)))"

text \<open>The pattern \<^verbatim>\<open>\*\*(.+?)\*\*\<close>.\<close>

definition dstar :: pystr where
  "dstar = u ''**''"

definition search_bold :: "pystr \<Rightarrow> (pystr \<times> pystr \<times> pystr) option" where
  "search_bold s = re_search (lit dstar) dstar s"

lemma lazy_group_decomp:
  "lazy_group cls s = Some (g, r) \<Longrightarrow> s = g @ cls @ r \<and> g \<noteq> [] \<and> nl \<notin> set g"
proof (induction s arbitrary: g r)
  case Nil
  then show ?case by simp
next
  case (Cons c s)
  show ?case
  proof (cases "prefix cls s")
    case True
    with Cons.prems have "c \<noteq> nl" "g = [c]" "r = drop (length cls) s"
      by (auto split: if_splits)
    moreover from True have "s = cls @ drop (length cls) s"
      by (auto simp: prefix_def)
    ultimately show ?thesis by simp
  next
    case False
    with Cons.prems obtain g' where g': "c \<noteq> nl" "lazy_group cls s = Some (g', r)" "g = c # g'"
      by (auto split: if_splits option.splits)
    from Cons.IH [OF g'(2)] g' show ?thesis by simp
  qed
qed

lemma re_search_lit_decomp:
  "re_search (lit p) cls s = Some (pre, g, r) \<Longrightarrow> s = pre @ p @ g @ cls @ r \<and> g \<noteq> [] \<and> nl \<notin> set g"
proof (induction s arbitrary: pre g r)
  case Nil
  then show ?case by simp
next
  case (Cons c s)
  show ?case
  proof (cases "case lit p (c # s) of None \<Rightarrow> None | Some t \<Rightarrow> lazy_group cls t")
    case None
    with Cons.prems obtain pre' where p': "re_search (lit p) cls s = Some (pre', g, r)" "pre = c # pre'"
      by (auto split: option.splits)
    from Cons.IH [OF p'(1)] p'(2) show ?thesis by simp
  next
    case (Some a)
    with Cons.prems have a: "a = (g, r)" "pre = []" by (auto split: prod.splits)
    from Some a obtain t where t: "lit p (c # s) = Some t" "lazy_group cls t = Some (g, r)"
      by (auto split: option.splits)
    from t(1) have "c # s = p @ t"
      by (auto simp: lit_def prefix_def split: if_splits)
    with lazy_group_decomp [OF t(2)] a show ?thesis by simp
  qed
qed

lemma search_bold_decomp:
  "search_bold s = Some (pre, g, r) \<Longrightarrow> s = pre @ dstar @ g @ dstar @ r \<and> g \<noteq> [] \<and> nl \<notin> set g"
  unfolding search_bold_def by (rule re_search_lit_decomp)

lemma search_bold_shorter: "search_bold s = Some (pre, g, r) \<Longrightarrow> length r < length s"
  using search_bold_decomp [of s pre g r] by simp

text \<open>
  \<^verbatim>\<open>re.sub(r"\*\*(.+?)\*\*", r"<strong>\1</strong>", text)\<close>: the matches are
  replaced from left to right, each search starting where the previous match ended.
\<close>

function re_sub_bold :: "pystr \<Rightarrow> pystr" where
  "re_sub_bold s =
     (case search_bold s of
        None \<Rightarrow> s
      | Some (pre, g, r) \<Rightarrow> pre @ u ''<strong>'' @ g @ u ''</strong>'' @ re_sub_bold r)"
  by pat_completeness auto
termination
proof (relation "measure length")
  show "wf (measure length)" by simp
next
  fix s :: pystr and x2 pre y g r
  assume "search_bold s = Some x2" "(pre, y) = x2" "(g, r) = y"
  then have "search_bold s = Some (pre, g, r)" by simp
  then show "(r, s) \<in> measure length"
    by (simp add: search_bold_shorter)
qed

definition inline_format :: "pystr \<Rightarrow> pystr" where
  "inline_format text = re_sub_bold (escape text)"


declare re_sub_bold.simps [simp del]

section \<open>Summary extractor\<close>

text \<open>
  The loop of \<^verbatim>\<open>extract_lede\<close> over the lines of the trimmed text: the first line
  with a match decides.
\<close>

fun lede_of_lines :: "pystr list \<Rightarrow> pystr" where
  "lede_of_lines [] = []"
| "lede_of_lines (line # rest) =
     (case search_bold line of
        Some (before, headline, after) \<Rightarrow>
          (let headline = (if endswith headline [dot] then butlast headline else headline);
               headline = (if length headline > 120 then take 117 headline @ u ''...'' else headline)
           in headline)
      | None \<Rightarrow> lede_of_lines rest)"

definition extract_lede :: "pystr \<Rightarrow> pystr" where
  "extract_lede text = lede_of_lines (split_nl (py_strip text))"

section \<open>Block parser\<close>

text \<open>
  \<^verbatim>\<open>re.match(r"^[\<dots>\-]{3,}$", line)\<close> with the box-drawing dash U+2500 and the
  hyphen: three or more of them, then the end of the string; \<^verbatim>\<open>$\<close> also matches
  before a final newline.
\<close>

definition is_rule_char :: "int \<Rightarrow> bool" where
  "is_rule_char c = (c = 0x2500 \<or> c = 45)"

definition re_match_rule :: "pystr \<Rightarrow> bool" where
  "re_match_rule line =
     (let dashes = takeWhile is_rule_char line; rest = dropWhile is_rule_char line
      in length dashes \<ge> 3 \<and> (rest = [] \<or> rest = [nl]))"

text \<open>
  \<^verbatim>\<open>re.match\<close> of the character class of U+1F300 to U+1FAFF, U+2600 to U+27BF and
  U+FE0F at the start of the line.
\<close>

definition re_match_emoji :: "pystr \<Rightarrow> bool" where
  "re_match_emoji line =
     (case line of
        [] \<Rightarrow> False
      | c # rest \<Rightarrow> (0x1F300 \<le> c \<and> c \<le> 0x1FAFF) \<or> (0x2600 \<le> c \<and> c \<le> 0x27BF) \<or> c = 0xFE0F)"

definition is_footer :: "pystr \<Rightarrow> bool" where
  "is_footer l =
     (let line = py_strip l
      in startswith line (u ''Briefing saved:'') \<or> startswith line (u ''Sources fetched:'') \<or>
         startswith line (u ''Failed sources:'') \<or> startswith line (u ''Next update:''))"

text \<open>
  The backward loop over \<^verbatim>\<open>j\<close>: the argument is the list of the lines
  \<^verbatim>\<open>lines[j], lines[j-1], \<dots>, lines[0]\<close> still to visit, so \<^verbatim>\<open>j\<close> is the
  number of lines after the head; the second argument is the current \<^verbatim>\<open>end\<close>.
\<close>

fun footer_scan :: "pystr list \<Rightarrow> nat \<Rightarrow> nat" where
  "footer_scan [] e = e"
| "footer_scan (l # below) e = (if is_footer l then footer_scan below (length below) else e)"

definition footer_end :: "pystr list \<Rightarrow> nat" where
  "footer_end lines = footer_scan (rev lines) (length lines)"

definition title_skip :: "pystr list \<Rightarrow> nat" where
  "title_skip lines =
     (case lines of
        [] \<Rightarrow> 0
      | first # rest \<Rightarrow> if startswith first (u ''Tucson Daily Brief'') then 1 else 0)"

text \<open>The test that ends a paragraph, on a trimmed line.\<close>

definition para_break :: "pystr \<Rightarrow> bool" where
  "para_break next_line =
     (next_line = [] \<or> startswith next_line [newspaper] \<or> startswith next_line [page] \<or>
      re_match_rule next_line \<or> re_match_emoji next_line)"

text \<open>
  The main loop \<^verbatim>\<open>while i < end\<close>, on the slice \<^verbatim>\<open>lines[i:end]\<close>; the result is
  \<^verbatim>\<open>html_parts\<close>. The inner loop takes the following lines up to the first one that
  breaks the paragraph.
\<close>

function parse_lines :: "pystr list \<Rightarrow> pystr list" where
  "parse_lines [] = []"
| "parse_lines (l # ls) =
     (let line = py_strip l in
      if line = [] then parse_lines ls
      else if re_match_rule line then u ''<hr>'' # parse_lines ls
      else if startswith line [newspaper] \<or> startswith line [page] then
        (let source_text = py_strip (replace_char page [] (replace_char newspaper [] line))
         in (u ''<p class=\"source\">'' @ escape source_text @ u ''</p>'') # parse_lines ls)
      else if re_match_emoji line \<and> \<not> startswith line dstar then
        (u ''<h2>'' @ escape line @ u ''</h2>'') # parse_lines ls
      else
        (let para_lines = line # map py_strip (takeWhile (\<lambda>x. \<not> para_break (py_strip x)) ls);
             para_text = join (u '' '') para_lines
         in (u ''<p>'' @ inline_format para_text @ u ''</p>'') #
            parse_lines (dropWhile (\<lambda>x. \<not> para_break (py_strip x)) ls)))"
  by pat_completeness auto
termination
  by (relation "measure length") (auto simp: length_dropWhile_le less_Suc_eq_le)

definition body_lines :: "pystr list \<Rightarrow> pystr list" where
  "body_lines lines = drop (title_skip lines) (take (footer_end lines) lines)"

definition md_to_html :: "pystr \<Rightarrow> pystr" where
  "md_to_html text = join [nl] (parse_lines (body_lines (split_nl (py_strip text))))"


section \<open>Source text and rendered text of a paragraph, piece by piece\<close>

text \<open>
  A text is cut at the matches of the bold pattern, as \<^verbatim>\<open>re.sub\<close> finds them, into
  plain pieces and bold pieces. \<open>source_of\<close> gives a piece back as it stood in the
  text; \<open>html_of\<close> is the piece as the specification wants it rendered: escaped, a bold
  piece inside a strong-emphasis wrapper.
\<close>

datatype seg = Plain pystr | Bold pystr

function bold_segments :: "pystr \<Rightarrow> seg list" where
  "bold_segments s =
     (case search_bold s of
        None \<Rightarrow> [Plain s]
      | Some (pre, g, r) \<Rightarrow> Plain pre # Bold g # bold_segments r)"
  by pat_completeness auto
termination
proof (relation "measure length")
  show "wf (measure length)" by simp
next
  fix s :: pystr and x2 pre y g r
  assume "search_bold s = Some x2" "(pre, y) = x2" "(g, r) = y"
  then have "search_bold s = Some (pre, g, r)" by simp
  then show "(r, s) \<in> measure length"
    by (simp add: search_bold_shorter)
qed

declare bold_segments.simps [simp del]

fun source_of :: "seg \<Rightarrow> pystr" where
  "source_of (Plain t) = t"
| "source_of (Bold g) = dstar @ g @ dstar"

fun html_of :: "seg \<Rightarrow> pystr" where
  "html_of (Plain t) = escape t"
| "html_of (Bold g) = u ''<strong>'' @ escape g @ u ''</strong>''"

declare parse_lines.simps [simp del]

text \<open>The two footer lines of the specification's example.\<close>

definition footer1 :: pystr where "footer1 = u ''Briefing saved: 2026-02-18 06:00''"
definition footer2 :: pystr where "footer2 = u ''Sources fetched: 12''"

text \<open>
  The pieces of \<^verbatim>\<open>html_parts\<close> that the loop appends for a citation line and for a
  heading line, as functions of the line, and the test for a citation line.
\<close>

definition citation_html :: "pystr \<Rightarrow> pystr" where
  "citation_html l =
     u ''<p class=\"source\">'' @
     escape (py_strip (replace_char page [] (replace_char newspaper [] (py_strip l)))) @ u ''</p>''"

definition heading_html :: "pystr \<Rightarrow> pystr" where
  "heading_html l = u ''<h2>'' @ escape (py_strip l) @ u ''</h2>''"

definition starts_citation :: "pystr \<Rightarrow> bool" where
  "starts_citation line = (startswith line [newspaper] \<or> startswith line [page])"

text \<open>
  The text of a paragraph, \<^verbatim>\<open>" ".join(para_lines)\<close>, as a function of its first line and
  of the lines that follow it, and the piece of \<^verbatim>\<open>html_parts\<close> that the specification
  wants for it: the escaped pieces of that text, the bold ones wrapped, inside a paragraph
  element.
\<close>

definition para_text :: "pystr \<Rightarrow> pystr list \<Rightarrow> pystr" where
  "para_text l ls =
     join (u '' '') (py_strip l # map py_strip (takeWhile (\<lambda>x. \<not> para_break (py_strip x)) ls))"

definition para_html :: "pystr \<Rightarrow> pystr list \<Rightarrow> pystr" where
  "para_html l ls = u ''<p>'' @ concat (map html_of (bold_segments (para_text l ls))) @ u ''</p>''"

section \<open>Dates\<close>

text \<open>
  The \<^verbatim>\<open>datetime\<close> values of the program come from
  \<^verbatim>\<open>strptime(..., "%Y-%m-%d")\<close>: the time of day is always midnight, so a value is
  its year, month and day, and values compare as these triples do.
\<close>

type_synonym date = "int \<times> int \<times> int"












text \<open>Decimal digits of a number that is not negative, as \<^verbatim>\<open>strftime\<close> prints them.\<close>

function str_int :: "int \<Rightarrow> pystr" where
  "str_int n = (if n < 10 then [48 + n] else str_int (n div 10) @ [48 + n mod 10])"
  by pat_completeness auto
termination
  by (relation "measure nat") auto

declare str_int.simps [simp del]

definition pad2 :: "int \<Rightarrow> pystr" where
  "pad2 n = (if n < 10 then 48 # str_int n else str_int n)"

definition month_name :: "int \<Rightarrow> pystr" where
  "month_name m =
     (if m = 1 then u ''January'' else if m = 2 then u ''February''
      else if m = 3 then u ''March'' else if m = 4 then u ''April''
      else if m = 5 then u ''May'' else if m = 6 then u ''June''
      else if m = 7 then u ''July'' else if m = 8 then u ''August''
      else if m = 9 then u ''September'' else if m = 10 then u ''October''
      else if m = 11 then u ''November'' else u ''December'')"

text \<open>
  \<^verbatim>\<open>%B %-d, %Y\<close>, \<^verbatim>\<open>%b %-d, %Y\<close> and \<^verbatim>\<open>%Y-%m-%d\<close> in the C locale;
  \<^verbatim>\<open>%Y\<close> prints the year without padding, as the C library of the platform does.
\<close>

fun format_date_long :: "date \<Rightarrow> pystr" where
  "format_date_long (y, m, d) = month_name m @ u '' '' @ str_int d @ u '', '' @ str_int y"

fun format_date_short :: "date \<Rightarrow> pystr" where
  "format_date_short (y, m, d) = take 3 (month_name m) @ u '' '' @ str_int d @ u '', '' @ str_int y"

fun post_slug :: "date \<Rightarrow> pystr" where
  "post_slug (y, m, d) = str_int y @ u ''-'' @ pad2 m @ u ''-'' @ pad2 d"

section \<open>Pages\<close>

text \<open>
  \<^verbatim>\<open>render_post\<close>: the page template, cut at the place of the body into the text in
  front of it and the text behind it.
\<close>

definition post_head :: "date \<Rightarrow> pystr" where
  "post_head dt =
     (let title = u ''Tucson Daily Brief &mdash; '' @ format_date_long dt;
          slug = post_slug dt
      in u ''<!DOCTYPE html>\<newline>'' @
       u ''<html lang=\"en\">\<newline>'' @
       u ''<head>\<newline>'' @
       u ''<meta charset=\"utf-8\">\<newline>'' @
       u ''<meta name=\"viewport\" content=\"width=device-width, initial-scale=1\">\<newline>'' @
       u ''<title>'' @
       title @
       u ''</title>\<newline>'' @
       u ''<link rel=\"stylesheet\" href=\"../style.css\">\<newline>'' @
       u ''</head>\<newline>'' @
       u ''<body>\<newline>'' @
       u ''<div class=\"container\">\<newline>'' @
       u ''\<newline>'' @
       u ''<header>\<newline>'' @
       u ''<h1><a href=\"../\">Tucson Daily Brief</a></h1>\<newline>'' @
       u ''<p class=\"tagline\">An AI-powered local news pipeline by Nicholas De Leon</p>\<newline>'' @
       u ''</header>\<newline>'' @
       u ''\<newline>'' @
       u ''<a class=\"back-link\" href=\"../\">&larr; All briefings</a>\<newline>'' @
       u ''\<newline>'' @
       u ''<article id=\"'' @
       slug @
       u ''\">\<newline>'' @
       u ''<p class=\"post-meta\">'' @
       format_date_long dt @
       u ''</p>\<newline>'')"

definition post_tail :: pystr where
  "post_tail =
       u ''\<newline>'' @
       u ''</article>\<newline>'' @
       u ''\<newline>'' @
       u ''<footer>\<newline>'' @
       u ''<p>By Nicholas De Leon</p>\<newline>'' @
       u ''<p class=\"footer-links\">\<newline>'' @
       u ''<a href=\"https://podcasts.apple.com/us/podcast/tucson-daily-brief/id1795533938\">Apple Podcasts</a> &middot;\<newline>'' @
       u ''<a href=\"https://www.youtube.com/@TucsonDailyBrief\">YouTube</a>\<newline>'' @
       u ''</p>\<newline>'' @
       u ''</footer>\<newline>'' @
       u ''\<newline>'' @
       u ''</div>\<newline>'' @
       u ''</body>\<newline>'' @
       u ''</html>\<newline>''"

definition render_post :: "date \<Rightarrow> pystr \<Rightarrow> pystr" where
  "render_post dt body_html = post_head dt @ body_html @ post_tail"

text \<open>A post record: the dictionary with the keys \<^verbatim>\<open>date\<close>, \<^verbatim>\<open>slug\<close>, \<^verbatim>\<open>lede\<close>.\<close>

record post =
  date :: date
  slug :: pystr
  lede :: pystr

definition index_item :: "post \<Rightarrow> pystr" where
  "index_item p =
     u ''<li>\<newline>'' @
     u ''<span class=\"post-date\">'' @
     format_date_short (date p) @
     u ''</span>\<newline>'' @
     u ''<a href=\"posts/'' @
     slug p @
     u ''.html\">'' @
     format_date_long (date p) @
     u ''</a>\<newline>'' @
     u ''<p class=\"post-lede\">'' @
     escape (lede p) @
     u ''</p>\<newline>'' @
     u ''</li>''"

text \<open>
  \<^verbatim>\<open>render_index\<close>: the template of the index page, cut at the place of the list into
  the text in front of it and the text behind it.
\<close>

definition index_head :: pystr where
  "index_head =
       u ''<!DOCTYPE html>\<newline>'' @
       u ''<html lang=\"en\">\<newline>'' @
       u ''<head>\<newline>'' @
       u ''<meta charset=\"utf-8\">\<newline>'' @
       u ''<meta name=\"viewport\" content=\"width=device-width, initial-scale=1\">\<newline>'' @
       u ''<title>Tucson Daily Brief</title>\<newline>'' @
       u ''<link rel=\"stylesheet\" href=\"style.css\">\<newline>'' @
       u ''</head>\<newline>'' @
       u ''<body>\<newline>'' @
       u ''<div class=\"container\">\<newline>'' @
       u ''\<newline>'' @
       u ''<header>\<newline>'' @
       u ''<h1><a href=\"./\">Tucson Daily Brief</a></h1>\<newline>'' @
       u ''<p class=\"tagline\">An AI-powered local news pipeline by Nicholas De Leon</p>\<newline>'' @
       u ''</header>\<newline>'' @
       u ''\<newline>'' @
       u ''<ul class=\"post-list\">\<newline>''"

definition index_tail :: pystr where
  "index_tail =
       u ''\<newline>'' @
       u ''</ul>\<newline>'' @
       u ''\<newline>'' @
       u ''<footer>\<newline>'' @
       u ''<p>By Nicholas De Leon</p>\<newline>'' @
       u ''<p class=\"footer-links\">\<newline>'' @
       u ''<a href=\"https://podcasts.apple.com/us/podcast/tucson-daily-brief/id1795533938\">Apple Podcasts</a> &middot;\<newline>'' @
       u ''<a href=\"https://www.youtube.com/@TucsonDailyBrief\">YouTube</a>\<newline>'' @
       u ''</p>\<newline>'' @
       u ''</footer>\<newline>'' @
       u ''\<newline>'' @
       u ''</div>\<newline>'' @
       u ''</body>\<newline>'' @
       u ''</html>\<newline>''"

definition render_index :: "post list \<Rightarrow> pystr" where
  "render_index posts =
     (let items = map index_item posts;
          post_list = (if items \<noteq> [] then join [nl] items
                       else u ''<li class=\"empty\">No briefings yet.</li>'')
      in index_head @ post_list @ index_tail)"

section \<open>Metadata recovery\<close>

text \<open>
  The opening of \<^verbatim>\<open><p class="post-lede"[^>]*>\<close>: the literal, then every character up
  to the next \<^verbatim>\<open>>\<close>, which must be there. (The class \<^verbatim>\<open>[^>]\<close> takes newlines too,
  and giving back characters of it cannot help: the next character would have to be
  \<^verbatim>\<open>>\<close>.)
\<close>

definition lede_open :: "pystr \<Rightarrow> pystr option" where
  "lede_open s =
     (case lit (u ''<p class=\"post-lede\"'') s of
        None \<Rightarrow> None
      | Some t \<Rightarrow> (case dropWhile (\<lambda>c. c \<noteq> gt) t of [] \<Rightarrow> None | c # r \<Rightarrow> Some r))"

definition search_post_lede :: "pystr \<Rightarrow> (pystr \<times> pystr \<times> pystr) option" where
  "search_post_lede content = re_search lede_open (u ''</p>'') content"

definition search_strong :: "pystr \<Rightarrow> (pystr \<times> pystr \<times> pystr) option" where
  "search_strong content = re_search (lit (u ''<strong>'')) (u ''</strong>'') content"

text \<open>The lede that \<^verbatim>\<open>collect_existing_posts\<close> takes from the content of a file.\<close>

definition recover_lede :: "pystr \<Rightarrow> pystr" where
  "recover_lede content =
     (case search_post_lede content of
        None \<Rightarrow>
          (case search_strong content of
             Some (before, g, after) \<Rightarrow> rstrip_dots g
           | None \<Rightarrow> [])
      | Some (before, g, after) \<Rightarrow> g)"




section \<open>The run of the program\<close>








definition lede_mark :: pystr where
  "lede_mark = u ''<p class=\"post-lede\"''"

section \<open>Patterns in rendered pages\<close>

text \<open>
  \<open>compat p t\<close>: the pattern \<open>p\<close> and the text \<open>t\<close> agree as far as both go, so that
  \<open>p\<close> matches at the start of \<open>t\<close> or could match there if more text followed.
  \<open>clear p s\<close>: that is so at no position of \<open>s\<close>; then the literal \<open>p\<close> starts
  nowhere in \<open>s\<close>, whatever text follows \<open>s\<close>. \<open>nodstar s\<close>: the bold marker occurs
  nowhere in \<open>s\<close>. \<open>first_bold parts e\<close>: in the parts of a rendered body, the first
  strong-emphasis element stands in a paragraph and holds the text \<open>e\<close>.
\<close>

fun compat :: "pystr \<Rightarrow> pystr \<Rightarrow> bool" where
  "compat [] t = True"
| "compat (x # p) [] = True"
| "compat (x # p) (y # t) = (x = y \<and> compat p t)"

fun clear :: "pystr \<Rightarrow> pystr \<Rightarrow> bool" where
  "clear p [] = True"
| "clear p (c # s) = (\<not> compat p (c # s) \<and> clear p s)"

definition strong_open :: pystr where "strong_open = u ''<strong>''"

definition strong_close :: pystr where "strong_close = u ''</strong>''"

definition nodstar :: "pystr \<Rightarrow> bool" where
  "nodstar s = (\<nexists>a b. s = a @ dstar @ b)"

definition first_bold :: "pystr list \<Rightarrow> pystr \<Rightarrow> bool" where
  "first_bold parts e =
     (\<exists>pc X Y after. parts = pc @ [u ''<p>'' @ X @ strong_open @ e @ strong_close @ Y] @ after \<and>
        (\<forall>q \<in> set pc. clear strong_open q) \<and> lt \<notin> set X)"

section \<open>Facts about escaping\<close>

lemma escape_Nil: "escape [] = []"
  by (simp add: escape_def replace_char_def)

lemma escape_Cons: "escape (c # s) = esc_char c @ escape s"
  by (simp add: escape_def replace_char_def esc_char_def u_def)

lemma escape_eq_spec: "escape s = escape_spec s"
  by (induction s) (simp_all add: escape_Nil escape_Cons escape_spec_def)

lemma escape_append: "escape (a @ b) = escape a @ escape b"
  by (simp add: escape_eq_spec escape_spec_def)

lemma esc_char_set:
  "x \<in> set (esc_char c) \<Longrightarrow>
   x \<noteq> lt \<and> x \<noteq> gt \<and> x \<noteq> quot \<and> (x = 42 \<longrightarrow> c = 42) \<and> (x = nl \<longrightarrow> c = nl)"
  by (auto simp: esc_char_def u_def split: if_splits)

lemma escape_no_raw:
  "lt \<notin> set (escape s) \<and> gt \<notin> set (escape s) \<and> quot \<notin> set (escape s)"
  using esc_char_set by (fastforce simp: escape_eq_spec escape_spec_def)

section \<open>Facts about the bold pattern\<close>

lemma bold_segments_None: "search_bold s = None \<Longrightarrow> bold_segments s = [Plain s]"
  by (subst bold_segments.simps) simp

lemma bold_segments_Some:
  "search_bold s = Some (pre, g, r) \<Longrightarrow> bold_segments s = Plain pre # Bold g # bold_segments r"
  by (subst bold_segments.simps) simp

lemma re_sub_bold_None: "search_bold s = None \<Longrightarrow> re_sub_bold s = s"
  by (subst re_sub_bold.simps) simp

lemma re_sub_bold_Some:
  "search_bold s = Some (pre, g, r) \<Longrightarrow>
   re_sub_bold s = pre @ u ''<strong>'' @ g @ u ''</strong>'' @ re_sub_bold r"
  by (subst re_sub_bold.simps) simp

lemma source_of_bold_segments: "concat (map source_of (bold_segments s)) = s"
proof (induction s rule: bold_segments.induct)
  case (1 s)
  show ?case
  proof (cases "search_bold s")
    case None
    then show ?thesis by (simp add: bold_segments_None)
  next
    case (Some a)
    obtain pre g r where a: "a = (pre, g, r)" by (cases a) auto
    from Some a have sb: "search_bold s = Some (pre, g, r)" by simp
    from search_bold_decomp [OF sb] have s: "s = pre @ dstar @ g @ dstar @ r" by simp
    from "1.IH" [OF Some a [symmetric] refl] have "concat (map source_of (bold_segments r)) = r" .
    then have "concat (map source_of (Plain pre # Bold g # bold_segments r)) = pre @ dstar @ g @ dstar @ r"
      by simp
    with s bold_segments_Some [OF sb] show ?thesis by simp
  qed
qed

lemma dstar_eq: "dstar = [42, 42]"
  by (simp add: dstar_def u_def)

definition starfree :: "pystr \<Rightarrow> bool" where
  "starfree e = (42 \<notin> set e \<and> nl \<notin> set e)"

lemma esc_char_starfree: "c \<noteq> 42 \<Longrightarrow> c \<noteq> nl \<Longrightarrow> starfree (esc_char c) \<and> esc_char c \<noteq> []"
  by (auto simp: starfree_def esc_char_def u_def)

lemma prefix_dstar_starfree:
  "starfree e \<Longrightarrow> e \<noteq> [] \<Longrightarrow> \<not> prefix dstar (e @ t)"
  by (cases e) (auto simp: starfree_def dstar_eq)

lemma lazy_group_starfree:
  "starfree e \<Longrightarrow> e \<noteq> [] \<Longrightarrow>
   lazy_group dstar (e @ t) =
     (if prefix dstar t then Some (e, drop 2 t)
      else map_option (\<lambda>(g, r). (e @ g, r)) (lazy_group dstar t))"
proof (induction e)
  case Nil
  then show ?case by simp
next
  case (Cons c e)
  from Cons.prems have cnl: "c \<noteq> nl" by (auto simp: starfree_def)
  have len: "length dstar = 2" by (simp add: dstar_eq)
  show ?case
  proof (cases "e = []")
    case True
    with cnl len show ?thesis
      by (auto split: option.splits)
  next
    case False
    from Cons.prems have sf: "starfree e" by (auto simp: starfree_def)
    from prefix_dstar_starfree [OF sf False] have np: "\<not> prefix dstar (e @ t)" .
    from Cons.IH [OF sf False] np cnl show ?thesis
      by (auto split: option.splits)
  qed
qed

lemma prefix_dstar_escape: "prefix dstar (escape s) = prefix dstar s"
proof (cases s)
  case Nil
  then show ?thesis by (simp add: escape_Nil)
next
  case (Cons c s')
  show ?thesis
  proof (cases s')
    case Nil
    with Cons show ?thesis
      by (auto simp: escape_Cons escape_Nil esc_char_def u_def dstar_eq)
  next
    case (Cons d s'')
    with \<open>s = c # s'\<close> show ?thesis
      by (auto simp: escape_Cons esc_char_def u_def dstar_eq)
  qed
qed

lemma drop2_escape: "prefix dstar s \<Longrightarrow> drop 2 (escape s) = escape (drop 2 s)"
  by (auto simp: prefix_def dstar_eq escape_Cons esc_char_def)

lemma lazy_group_escape:
  "lazy_group dstar (escape s) =
     map_option (\<lambda>(g, r). (escape g, escape r)) (lazy_group dstar s)"
proof (induction s)
  case Nil
  then show ?case by (simp add: escape_Nil)
next
  case (Cons c s)
  have len: "length dstar = 2" by (simp add: dstar_eq)
  show ?case
  proof (cases "c = nl")
    case True
    then show ?thesis by (simp add: escape_Cons esc_char_def)
  next
    case nnl: False
    have one: "escape [c] = esc_char c" by (simp add: escape_Cons escape_Nil)
    have "lazy_group dstar (escape (c # s)) =
          (if prefix dstar (escape s) then Some (esc_char c, drop 2 (escape s))
           else map_option (\<lambda>(g, r). (esc_char c @ g, r)) (lazy_group dstar (escape s)))"
    proof (cases "c = 42")
      case True
      then have "esc_char c = [c]" by (simp add: esc_char_def)
      with nnl len show ?thesis by (auto simp: escape_Cons split: option.splits)
    next
      case False
      from esc_char_starfree [OF False nnl] show ?thesis
        unfolding escape_Cons by (intro lazy_group_starfree) auto
    qed
    also have "\<dots> = map_option (\<lambda>(g, r). (escape g, escape r)) (lazy_group dstar (c # s))"
      using nnl len one
      by (auto simp: Cons.IH prefix_dstar_escape drop2_escape escape_Cons split: option.splits)
    finally show ?thesis .
  qed
qed

lemma lit_dstar_not_star: "c \<noteq> 42 \<Longrightarrow> lit dstar (c # s) = None"
  by (simp add: lit_def dstar_eq)

lemma re_search_skip:
  "42 \<notin> set e \<Longrightarrow>
   re_search (lit dstar) cls (e @ t) =
     map_option (\<lambda>(pre, g, r). (e @ pre, g, r)) (re_search (lit dstar) cls t)"
proof (induction e)
  case Nil
  then show ?case by (simp add: option.map_ident)
next
  case (Cons x e)
  then have "lit dstar (x # e @ t) = None" by (simp add: lit_dstar_not_star)
  with Cons show ?case by (auto split: option.splits)
qed

lemma search_bold_escape:
  "search_bold (escape s) =
     map_option (\<lambda>(pre, g, r). (escape pre, escape g, escape r)) (search_bold s)"
proof (induction s)
  case Nil
  then show ?case by (simp add: escape_Nil search_bold_def)
next
  case (Cons c s)
  show ?case
  proof (cases "c = 42")
    case True
    then have e: "escape (c # s) = c # escape s" by (simp add: escape_Cons esc_char_def)
    have len: "length dstar = 2" by (simp add: dstar_eq)
    have "lit dstar (c # escape s) = map_option escape (lit dstar (c # s))"
      using prefix_dstar_escape [of "c # s"] drop2_escape [of "c # s"]
      by (simp add: lit_def e len)
    then have "(case lit dstar (c # escape s) of None \<Rightarrow> None | Some t \<Rightarrow> lazy_group dstar t) =
        map_option (\<lambda>(g, r). (escape g, escape r))
          (case lit dstar (c # s) of None \<Rightarrow> None | Some t \<Rightarrow> lazy_group dstar t)"
      by (cases "lit dstar (c # s)") (simp_all add: lazy_group_escape)
    with Cons.IH True show ?thesis
      unfolding search_bold_def e
      by (auto simp: escape_Nil escape_Cons esc_char_def split: option.splits)
  next
    case False
    then have "42 \<notin> set (esc_char c)" using esc_char_set by blast
    from re_search_skip [OF this]
    have "search_bold (escape (c # s)) =
        map_option (\<lambda>(pre, g, r). (esc_char c @ pre, g, r)) (search_bold (escape s))"
      by (simp add: search_bold_def escape_Cons)
    moreover from False have "search_bold (c # s) =
        map_option (\<lambda>(pre, g, r). (c # pre, g, r)) (search_bold s)"
      by (auto simp: search_bold_def lit_dstar_not_star split: option.splits)
    ultimately show ?thesis
      by (cases "search_bold s") (auto simp: Cons.IH escape_Cons)
  qed
qed

lemma inline_format_segments: "inline_format s = concat (map html_of (bold_segments s))"
  unfolding inline_format_def
proof (induction s rule: bold_segments.induct)
  case (1 s)
  show ?case
  proof (cases "search_bold s")
    case None
    then have "search_bold (escape s) = None" by (simp add: search_bold_escape)
    with None show ?thesis by (simp add: bold_segments_None re_sub_bold_None)
  next
    case (Some a)
    obtain pre g r where a: "a = (pre, g, r)" by (cases a) auto
    from Some a have sb: "search_bold s = Some (pre, g, r)" by simp
    then have "search_bold (escape s) = Some (escape pre, escape g, escape r)"
      by (simp add: search_bold_escape)
    from re_sub_bold_Some [OF this] "1.IH" [OF Some a [symmetric] refl]
    show ?thesis by (simp add: bold_segments_Some [OF sb])
  qed
qed

lemma html_of_no_quot: "quot \<notin> set (html_of x)"
  using escape_no_raw by (cases x) (auto simp: u_def)

lemma lazy_group_complete:
  "g \<noteq> [] \<Longrightarrow> nl \<notin> set g \<Longrightarrow>
   \<exists>g' r'. lazy_group cls (g @ cls @ r) = Some (g', r') \<and> length g' \<le> length g"
proof (induction g)
  case Nil
  then show ?case by simp
next
  case (Cons c g)
  show ?case
  proof (cases "prefix cls (g @ cls @ r)")
    case True
    with Cons.prems show ?thesis by simp
  next
    case False
    then have "g \<noteq> []" by auto
    with Cons obtain g' r' where "lazy_group cls (g @ cls @ r) = Some (g', r')" "length g' \<le> length g"
      by auto
    with False Cons.prems show ?thesis by simp
  qed
qed

lemma re_search_here:
  "s \<noteq> [] \<Longrightarrow> opn s = Some t \<Longrightarrow> lazy_group cls t = Some (g, r) \<Longrightarrow>
   re_search opn cls s = Some ([], g, r)"
  by (cases s) auto

lemma re_search_complete:
  "g \<noteq> [] \<Longrightarrow> nl \<notin> set g \<Longrightarrow>
   \<exists>pre' g' r'. re_search (lit p) cls (pre @ p @ g @ cls @ r) = Some (pre', g', r') \<and>
     (length pre' < length pre \<or> (length pre' = length pre \<and> length g' \<le> length g))"
proof (induction pre)
  case Nil
  from lazy_group_complete [OF Nil, of cls r] obtain g' r'
    where g': "lazy_group cls (g @ cls @ r) = Some (g', r')" "length g' \<le> length g"
    by blast
  have l: "lit p (p @ g @ cls @ r) = Some (g @ cls @ r)" by (simp add: lit_def)
  from Nil have "p @ g @ cls @ r \<noteq> []" by simp
  from re_search_here [of "p @ g @ cls @ r" "lit p" "g @ cls @ r" cls g' r', OF this l g'(1)] g'(2)
  show ?case by simp
next
  case (Cons x pre)
  from Cons.IH [OF Cons.prems] obtain pre' g' r' where
    ih: "re_search (lit p) cls (pre @ p @ g @ cls @ r) = Some (pre', g', r')"
      "length pre' < length pre \<or> (length pre' = length pre \<and> length g' \<le> length g)"
    by blast
  show ?case
  proof (cases "case lit p ((x # pre) @ p @ g @ cls @ r) of None \<Rightarrow> None | Some t \<Rightarrow> lazy_group cls t")
    case None
    with ih show ?thesis by auto
  next
    case (Some a)
    then show ?thesis by (cases a) auto
  qed
qed

lemma search_bold_complete:
  assumes "g \<noteq> []" "nl \<notin> set g"
  shows "\<exists>pre' g' r'. search_bold (pre @ dstar @ g @ dstar @ r) = Some (pre', g', r') \<and>
     (length pre' < length pre \<or> (length pre' = length pre \<and> length g' \<le> length g))"
  unfolding search_bold_def using assms by (rule re_search_complete)

lemma search_bold_None_iff:
  "(search_bold s = None) = (\<nexists>pre g r. s = pre @ dstar @ g @ dstar @ r \<and> g \<noteq> [] \<and> nl \<notin> set g)"
proof
  assume n: "search_bold s = None"
  show "\<nexists>pre g r. s = pre @ dstar @ g @ dstar @ r \<and> g \<noteq> [] \<and> nl \<notin> set g"
  proof
    assume "\<exists>pre g r. s = pre @ dstar @ g @ dstar @ r \<and> g \<noteq> [] \<and> nl \<notin> set g"
    then obtain pre g r where "s = pre @ dstar @ g @ dstar @ r" "g \<noteq> []" "nl \<notin> set g" by blast
    with search_bold_complete [of g pre r] n show False by auto
  qed
next
  assume a: "\<nexists>pre g r. s = pre @ dstar @ g @ dstar @ r \<and> g \<noteq> [] \<and> nl \<notin> set g"
  show "search_bold s = None"
  proof (cases "search_bold s")
    case None
    then show ?thesis .
  next
    case (Some x)
    obtain pre g r where "x = (pre, g, r)" by (cases x) auto
    with Some search_bold_decomp [of s pre g r] a show ?thesis by blast
  qed
qed

lemma search_bold_leftmost_lazy:
  assumes "search_bold s = Some (pre, g, r)"
    and "s = pre' @ dstar @ g' @ dstar @ r'" "g' \<noteq> []" "nl \<notin> set g'"
  shows "length pre < length pre' \<or> (length pre = length pre' \<and> length g \<le> length g')"
  using search_bold_complete [OF assms(3,4), of pre' r'] assms(1,2) by auto

lemma lede_of_lines_none: "\<forall>l \<in> set ls. search_bold l = None \<Longrightarrow> lede_of_lines ls = []"
  by (induction ls) auto

lemma lede_of_lines_first:
  "\<forall>x \<in> set before. search_bold x = None \<Longrightarrow> search_bold l = Some (pre, g, r) \<Longrightarrow>
   lede_of_lines (before @ l # after) =
     (let h = (if endswith g [dot] then butlast g else g)
      in if length h > 120 then take 117 h @ u ''...'' else h)"
  by (induction before) (auto simp: Let_def)

lemma py_strip_substring: "\<exists>a b. s = a @ py_strip s @ b"
proof -
  have 1: "s = takeWhile py_isspace s @ py_lstrip s"
    by (simp add: py_lstrip_def)
  have "rev (py_lstrip s) = takeWhile py_isspace (rev (py_lstrip s)) @ dropWhile py_isspace (rev (py_lstrip s))"
    by simp
  then have "py_lstrip s = py_strip s @ rev (takeWhile py_isspace (rev (py_lstrip s)))"
    unfolding py_strip_def py_rstrip_def by (metis rev_append rev_rev_ident)
  with 1 show ?thesis by metis
qed

lemma split_nl_nonempty: "split_nl s \<noteq> []"
  by (induction s) (auto split: list.splits)

lemma split_nl_substring: "l \<in> set (split_nl s) \<Longrightarrow> \<exists>a b. s = a @ l @ b"
proof (induction s arbitrary: l)
  case Nil
  then show ?case by simp
next
  case (Cons c s)
  show ?case
  proof (cases "c = nl")
    case True
    with Cons.prems have "l = [] \<or> l \<in> set (split_nl s)" by auto
    then show ?thesis
    proof
      assume "l = []"
      then show ?thesis by auto
    next
      assume "l \<in> set (split_nl s)"
      from Cons.IH [OF this] obtain a b where "s = a @ l @ b" by blast
      then have "c # s = (c # a) @ l @ b" by simp
      then show ?thesis by blast
    qed
  next
    case False
    obtain l0 ls where sp: "split_nl s = l0 # ls"
      using split_nl_nonempty [of s] by (cases "split_nl s") auto
    from Cons.IH [of l0] sp obtain a0 b0 where l0: "s = a0 @ l0 @ b0" by auto
    have l0': "\<exists>b. s = l0 @ b" using sp
    proof (induction s arbitrary: l0 ls)
      case Nil
      then show ?case by simp
    next
      case (Cons d s)
      then show ?case by (auto split: if_splits list.splits)
    qed
    from False sp Cons.prems have "l = c # l0 \<or> l \<in> set ls" by auto
    then show ?thesis
    proof
      assume "l = c # l0"
      with l0' show ?thesis by auto
    next
      assume "l \<in> set ls"
      with sp have "l \<in> set (split_nl s)" by simp
      from Cons.IH [OF this] obtain a b where "s = a @ l @ b" by blast
      then have "c # s = (c # a) @ l @ b" by simp
      then show ?thesis by blast
    qed
  qed
qed

lemma line_substring: "l \<in> set (split_nl (py_strip text)) \<Longrightarrow> \<exists>a b. text = a @ l @ b"
proof -
  assume "l \<in> set (split_nl (py_strip text))"
  from split_nl_substring [OF this] obtain a b where 1: "py_strip text = a @ l @ b" by blast
  from py_strip_substring [of "text"] obtain a' b' where "text = a' @ py_strip text @ b'" by blast
  with 1 have "text = (a' @ a) @ l @ (b @ b')" by simp
  then show ?thesis by blast
qed

lemma search_bold_None_substring:
  assumes "search_bold (a @ l @ b) = None"
  shows "search_bold l = None"
proof (cases "search_bold l")
  case None
  then show ?thesis .
next
  case (Some x)
  obtain pre g r where "x = (pre, g, r)" by (cases x) auto
  with Some search_bold_decomp [of l pre g r]
  have "l = pre @ dstar @ g @ dstar @ r" "g \<noteq> []" "nl \<notin> set g" by auto
  then have "a @ l @ b = (a @ pre) @ dstar @ g @ dstar @ (r @ b) \<and> g \<noteq> [] \<and> nl \<notin> set g" by simp
  with assms search_bold_None_iff [of "a @ l @ b"] show ?thesis by blast
qed

lemma extract_lede_no_bold: "search_bold text = None \<Longrightarrow> extract_lede text = []"
  unfolding extract_lede_def
  using line_substring search_bold_None_substring
  by (intro lede_of_lines_none) blast

lemma extract_lede_first:
  assumes sp: "split_nl (py_strip text) = before @ l # after"
    and none: "\<forall>x \<in> set before. search_bold x = None"
    and sb: "search_bold l = Some (pre, g, r)"
  shows "extract_lede text =
        (let h = (if endswith g [dot] then butlast g else g)
         in if length h > 120 then take 117 h @ u ''...'' else h)"
  unfolding extract_lede_def sp by (rule lede_of_lines_first [OF none sb])

lemma lede_150:
  assumes "length g = 150"
  shows "(let h = (if endswith g [dot] then butlast g else g)
         in if length h > 120 then take 117 h @ u ''...'' else h) = take 117 g @ u ''...''"
proof -
  have "take 117 (butlast g) = take 117 g"
    using assms by (simp add: butlast_conv_take)
  with assms show ?thesis by (simp add: Let_def)
qed

lemma len_ellipsis: "length g = 150 \<Longrightarrow> length (take 117 g @ u ''...'') = 120"
  by (simp add: u_def)

section \<open>Facts about the footer boundary\<close>


lemma footer_scan_eq:
  "footer_scan rs (length rs) = length rs - length (takeWhile is_footer rs)"
  by (induction rs) auto

lemma footer_end_eq:
  "footer_end lines = length lines - length (takeWhile is_footer (rev lines))"
  unfolding footer_end_def using footer_scan_eq [of "rev lines"] by simp

lemma footer_end_le: "footer_end lines \<le> length lines"
  by (simp add: footer_end_eq)

lemma footer_split:
  "lines = rev (dropWhile is_footer (rev lines)) @ rev (takeWhile is_footer (rev lines)) \<and>
   length (rev (dropWhile is_footer (rev lines))) = footer_end lines"
proof -
  have r: "rev lines = takeWhile is_footer (rev lines) @ dropWhile is_footer (rev lines)" by simp
  have "rev (rev lines) = rev (takeWhile is_footer (rev lines) @ dropWhile is_footer (rev lines))"
    by (simp only: takeWhile_dropWhile_id)
  then have l: "lines = rev (dropWhile is_footer (rev lines)) @ rev (takeWhile is_footer (rev lines))"
    by (simp only: rev_append rev_rev_ident)
  have "length (rev lines) = length (takeWhile is_footer (rev lines)) + length (dropWhile is_footer (rev lines))"
    by (simp only: length_append [symmetric] takeWhile_dropWhile_id)
  then have "length (rev (dropWhile is_footer (rev lines))) = footer_end lines"
    by (simp add: footer_end_eq)
  with l show ?thesis by blast
qed

lemma take_footer_end: "take (footer_end lines) lines = rev (dropWhile is_footer (rev lines))"
  using footer_split [of lines] by (metis append_eq_conv_conj)

lemma drop_footer_end: "drop (footer_end lines) lines = rev (takeWhile is_footer (rev lines))"
  using footer_split [of lines] by (metis append_eq_conv_conj)

lemma footer_run_all: "\<forall>l \<in> set (drop (footer_end lines) lines). is_footer l"
  unfolding drop_footer_end by (auto dest: set_takeWhileD)

lemma footer_end_stops:
  "footer_end lines = 0 \<or> \<not> is_footer (lines ! (footer_end lines - 1))"
proof (cases "dropWhile is_footer (rev lines)")
  case Nil
  then have "length (rev (dropWhile is_footer (rev lines))) = 0" by simp
  then have "length (take (footer_end lines) lines) = 0" by (simp only: take_footer_end)
  with footer_end_le [of lines] show ?thesis by simp
next
  case (Cons x xs)
  then have nf: "\<not> is_footer x" by (metis hd_dropWhile list.sel(1) list.distinct(1))
  from Cons have t: "take (footer_end lines) lines = rev xs @ [x]" by (simp add: take_footer_end)
  then have len: "footer_end lines = Suc (length xs)"
    using footer_end_le [of lines] by (metis length_append_singleton length_rev length_take min.absorb2)
  have "lines ! (footer_end lines - 1) = take (footer_end lines) lines ! (footer_end lines - 1)"
    using len by simp
  also have "\<dots> = x" unfolding t using len by (simp add: nth_append)
  finally show ?thesis using nf by simp
qed

lemma nonfooter_inside:
  assumes "m < length lines" "\<not> is_footer (lines ! m)"
  shows "m < footer_end lines"
proof (rule ccontr)
  assume "\<not> m < footer_end lines"
  then have le: "footer_end lines \<le> m" by simp
  from assms(1) le have "m - footer_end lines < length (drop (footer_end lines) lines)" by simp
  then have "drop (footer_end lines) lines ! (m - footer_end lines) \<in> set (drop (footer_end lines) lines)"
    by (rule nth_mem)
  moreover from assms(1) le have "drop (footer_end lines) lines ! (m - footer_end lines) = lines ! m"
    by simp
  ultimately show False using footer_run_all assms(2) by metis
qed

lemma footer_end_snoc: "is_footer f \<Longrightarrow> footer_end (ls @ [f]) = footer_end ls"
  by (simp add: footer_end_eq)

lemma body_lines_snoc: 
  assumes "is_footer f" 
  shows "body_lines (ls @ [f]) = body_lines ls"
proof (cases ls)
  case Nil
  with assms show ?thesis
    by (simp add: body_lines_def footer_end_snoc footer_end_eq)
next
  case (Cons a as)
  then have "title_skip (ls @ [f]) = title_skip ls" by (simp add: title_skip_def)
  with assms footer_end_le [of ls] show ?thesis
    by (simp add: body_lines_def footer_end_snoc)
qed

lemma split_nl_append: "split_nl (a @ nl # b) = split_nl a @ split_nl b"
proof (induction a)
  case Nil
  then show ?case by simp
next
  case (Cons c a)
  obtain l ls where "split_nl a = l # ls"
    using split_nl_nonempty [of a] by (cases "split_nl a") auto
  with Cons show ?case by simp
qed

lemma split_nl_line: "nl \<notin> set f \<Longrightarrow> split_nl f = [f]"
  by (induction f) auto

lemma py_lstrip_append:
  "py_lstrip (x @ t) = (if list_all py_isspace x then py_lstrip t else py_lstrip x @ t)"
  by (induction x) (auto simp: py_lstrip_def)

lemma py_rstrip_append:
  "f \<noteq> [] \<Longrightarrow> \<not> py_isspace (last f) \<Longrightarrow> py_rstrip (a @ f) = a @ f"
  by (cases f rule: rev_cases) (simp_all add: py_rstrip_def)

lemma footers: "is_footer footer1" "is_footer footer2" "nl \<notin> set footer1" "nl \<notin> set footer2"
  "footer2 \<noteq> []" "\<not> py_isspace (last footer2)" "py_lstrip (nl # footer1 @ nl # footer2) = footer1 @ nl # footer2"
  by (code_simp+)

lemma lines_with_footers:
  "split_nl (py_strip (x @ nl # footer1 @ nl # footer2)) =
     (if list_all py_isspace x then [] else split_nl (py_lstrip x)) @ [footer1, footer2]"
proof -
  have 1: "py_lstrip (x @ nl # footer1 @ nl # footer2) =
      (if list_all py_isspace x then footer1 @ nl # footer2 else py_lstrip x @ nl # footer1 @ nl # footer2)"
    by (simp only: py_lstrip_append footers(7))
  have 2: "py_rstrip (a @ footer2) = a @ footer2" for a
    using footers(5,6) by (rule py_rstrip_append)
  have 3: "py_strip (x @ nl # footer1 @ nl # footer2) =
      (if list_all py_isspace x then footer1 @ nl # footer2 else py_lstrip x @ nl # footer1 @ nl # footer2)"
    unfolding py_strip_def 1
    using 2 [of "footer1 @ [nl]"] 2 [of "py_lstrip x @ nl # footer1 @ [nl]"] by simp
  show ?thesis
    unfolding 3 using footers(3,4)
    by (simp add: split_nl_append split_nl_line)
qed

lemma md_to_html_footers:
  "md_to_html (x @ nl # footer1 @ nl # footer2) =
     join [nl] (parse_lines (body_lines (if list_all py_isspace x then [] else split_nl (py_lstrip x))))"
proof -
  have "body_lines (ls @ [footer1, footer2]) = body_lines ls" for ls
    using body_lines_snoc [OF footers(2), of "ls @ [footer1]"] body_lines_snoc [OF footers(1), of ls]
    by simp
  then show ?thesis
    unfolding md_to_html_def lines_with_footers by simp
qed

section \<open>Facts about the block loop\<close>

lemma citation_facts:
  "starts_citation line \<Longrightarrow>
   line \<noteq> [] \<and> \<not> re_match_rule line \<and> re_match_emoji line \<and> para_break line"
  by (cases line)
     (auto simp: starts_citation_def startswith_def re_match_rule_def re_match_emoji_def
       para_break_def is_rule_char_def)

lemma emoji_facts:
  "re_match_emoji line \<Longrightarrow>
   line \<noteq> [] \<and> \<not> re_match_rule line \<and> \<not> startswith line dstar \<and> para_break line"
  by (cases line)
     (auto simp: startswith_def re_match_rule_def re_match_emoji_def
       para_break_def is_rule_char_def dstar_eq)

lemma in_dropWhile: "l \<in> set ls \<Longrightarrow> \<not> P l \<Longrightarrow> l \<in> set (dropWhile P ls)"
  by (induction ls) auto

lemma parse_lines_Cons:
  "parse_lines (l # ls) =
     (if py_strip l = [] then parse_lines ls
      else if re_match_rule (py_strip l) then u ''<hr>'' # parse_lines ls
      else if starts_citation (py_strip l) then citation_html l # parse_lines ls
      else if re_match_emoji (py_strip l) \<and> \<not> startswith (py_strip l) dstar then
        heading_html l # parse_lines ls
      else
        (u ''<p>'' @ inline_format (join (u '' '')
            (py_strip l # map py_strip (takeWhile (\<lambda>x. \<not> para_break (py_strip x)) ls))) @ u ''</p>'') #
        parse_lines (dropWhile (\<lambda>x. \<not> para_break (py_strip x)) ls))"
  by (simp add: parse_lines.simps Let_def starts_citation_def citation_html_def heading_html_def)

lemma parse_lines_break:
  assumes "l \<in> set ls" "para_break (py_strip l)" "py_strip l \<noteq> []"
  shows "\<exists>before after. parse_lines ls = before @ parse_lines (l # after)"
  using assms
proof (induction ls rule: length_induct)
  case (1 ls)
  from "1.prems"(1) obtain a as where ls: "ls = a # as" by (cases ls) auto
  show ?case
  proof (cases "a = l")
    case True
    with ls have "parse_lines ls = [] @ parse_lines (l # as)" by simp
    then show ?thesis by blast
  next
    case False
    with "1.prems"(1) ls have mem: "l \<in> set as" by simp
    let ?rest = "dropWhile (\<lambda>x. \<not> para_break (py_strip x)) as"
    from mem "1.prems"(2) have mem': "l \<in> set ?rest" by (intro in_dropWhile) auto
    have len: "length as < length ls" "length ?rest < length ls"
      using ls by (auto simp: length_dropWhile_le less_Suc_eq_le)
    from "1.IH" len(1) mem "1.prems"(2,3)
    obtain b1 a1 where 1: "parse_lines as = b1 @ parse_lines (l # a1)" by blast
    from "1.IH" len(2) mem' "1.prems"(2,3)
    obtain b2 a2 where 2: "parse_lines ?rest = b2 @ parse_lines (l # a2)" by blast
    have "parse_lines ls = parse_lines as \<or> (\<exists>x. parse_lines ls = x # parse_lines as) \<or>
        (\<exists>x. parse_lines ls = x # parse_lines ?rest)"
      unfolding ls parse_lines_Cons by simp
    then show ?thesis
    proof (elim disjE exE)
      assume "parse_lines ls = parse_lines as"
      with 1 have "parse_lines ls = b1 @ parse_lines (l # a1)" by simp
      then show ?thesis by blast
    next
      fix x assume "parse_lines ls = x # parse_lines as"
      with 1 have "parse_lines ls = (x # b1) @ parse_lines (l # a1)" by simp
      then show ?thesis by blast
    next
      fix x assume "parse_lines ls = x # parse_lines ?rest"
      with 2 have "parse_lines ls = (x # b2) @ parse_lines (l # a2)" by simp
      then show ?thesis by blast
    qed
  qed
qed

lemma parse_lines_citation:
  assumes "l \<in> set ls" "starts_citation (py_strip l)"
  shows "citation_html l \<in> set (parse_lines ls)"
proof -
  from citation_facts [OF assms(2)] have f: "py_strip l \<noteq> []" "\<not> re_match_rule (py_strip l)"
    "para_break (py_strip l)" by auto
  from parse_lines_break [OF assms(1) f(3) f(1)] obtain before after
    where "parse_lines ls = before @ parse_lines (l # after)" by blast
  moreover have "parse_lines (l # after) = citation_html l # parse_lines after"
    using f assms(2) by (simp add: parse_lines_Cons)
  ultimately show ?thesis by simp
qed

lemma parse_lines_heading:
  assumes "l \<in> set ls" "re_match_emoji (py_strip l)" "\<not> starts_citation (py_strip l)"
  shows "heading_html l \<in> set (parse_lines ls)"
proof -
  from emoji_facts [OF assms(2)] have f: "py_strip l \<noteq> []" "\<not> re_match_rule (py_strip l)"
    "para_break (py_strip l)" "\<not> startswith (py_strip l) dstar" by auto
  from parse_lines_break [OF assms(1) f(3) f(1)] obtain before after
    where "parse_lines ls = before @ parse_lines (l # after)" by blast
  moreover have "parse_lines (l # after) = heading_html l # parse_lines after"
    using f assms(2,3) by (simp add: parse_lines_Cons)
  ultimately show ?thesis by simp
qed

lemma replace_char_remove_notin:
  "c \<notin> set s \<Longrightarrow> replace_char c [] s = s"
  by (induction s) (auto simp: replace_char_def)

lemma strip_marker:
  assumes "c = newspaper \<or> c = page" "newspaper \<notin> set rest" "page \<notin> set rest"
  shows "replace_char page [] (replace_char newspaper [] (c # rest)) = rest"
proof -
  have "replace_char newspaper [] (c # rest) = (if c = newspaper then [] else [c]) @ replace_char newspaper [] rest"
    by (simp add: replace_char_def)
  also have "\<dots> = (if c = newspaper then [] else [c]) @ rest"
    using assms(2) by (simp add: replace_char_remove_notin)
  finally have 1: "replace_char newspaper [] (c # rest) = (if c = newspaper then rest else c # rest)"
    by simp
  show ?thesis
  proof (cases "c = newspaper")
    case True
    with 1 assms(3) show ?thesis by (simp add: replace_char_remove_notin)
  next
    case False
    with assms(1) have c: "c = page" by simp
    have "replace_char page [] (c # rest) = replace_char page [] rest"
      using c by (simp add: replace_char_def)
    with 1 False assms(3) show ?thesis by (simp add: replace_char_remove_notin)
  qed
qed

lemma parse_lines_order:
  "parse_lines (l # ls) =
     (if py_strip l = [] then parse_lines ls
      else if re_match_rule (py_strip l) then u ''<hr>'' # parse_lines ls
      else if starts_citation (py_strip l) then citation_html l # parse_lines ls
      else if re_match_emoji (py_strip l) then heading_html l # parse_lines ls
      else
        (u ''<p>'' @ inline_format (join (u '' '')
            (py_strip l # map py_strip (takeWhile (\<lambda>x. \<not> para_break (py_strip x)) ls))) @ u ''</p>'') #
        parse_lines (dropWhile (\<lambda>x. \<not> para_break (py_strip x)) ls))"
  using emoji_facts [of "py_strip l"] by (simp add: parse_lines_Cons)

lemma parse_lines_para:
  assumes "py_strip l \<noteq> []" "\<not> re_match_rule (py_strip l)" "\<not> starts_citation (py_strip l)"
    "\<not> re_match_emoji (py_strip l)"
  shows "parse_lines (l # ls) =
     para_html l ls # parse_lines (dropWhile (\<lambda>x. \<not> para_break (py_strip x)) ls)"
  using assms
  by (simp add: parse_lines_Cons para_html_def para_text_def inline_format_segments)

lemma parse_lines_Cons2:
  "parse_lines (l # ls) =
     (if py_strip l = [] then parse_lines ls
      else if re_match_rule (py_strip l) then u ''<hr>'' # parse_lines ls
      else if starts_citation (py_strip l) then citation_html l # parse_lines ls
      else if re_match_emoji (py_strip l) then heading_html l # parse_lines ls
      else para_html l ls # parse_lines (dropWhile (\<lambda>x. \<not> para_break (py_strip x)) ls))"
  using emoji_facts [of "py_strip l"]
  by (simp add: parse_lines_Cons para_html_def para_text_def inline_format_segments)

lemma parse_lines_parts:
  "part \<in> set (parse_lines ls) \<Longrightarrow>
     part = u ''<hr>'' \<or> (\<exists>l\<in>set ls. part = citation_html l) \<or> (\<exists>l\<in>set ls. part = heading_html l) \<or>
     (\<exists>pre l rest. ls = pre @ l # rest \<and> part = para_html l rest)"
proof (induction ls rule: length_induct)
  case (1 ls)
  show ?case
  proof (cases ls)
    case Nil
    with "1.prems" show ?thesis by (simp add: parse_lines.simps)
  next
    case (Cons a as)
    let ?P = "\<lambda>x. \<not> para_break (py_strip x)"
    have lift: "part \<in> set (parse_lines as) \<Longrightarrow> ?thesis"
    proof -
      assume p: "part \<in> set (parse_lines as)"
      have "length as < length ls" using Cons by simp
      with "1.IH" p have "part = u ''<hr>'' \<or> (\<exists>l\<in>set as. part = citation_html l) \<or>
          (\<exists>l\<in>set as. part = heading_html l) \<or>
          (\<exists>pre l rest. as = pre @ l # rest \<and> part = para_html l rest)" by blast
      then show ?thesis
      proof (elim disjE exE conjE)
        fix pre l rest assume "as = pre @ l # rest" "part = para_html l rest"
        then have "ls = (a # pre) @ l # rest \<and> part = para_html l rest" using Cons by simp
        then show ?thesis by blast
      qed (use Cons in auto)
    qed
    have lift2: "part \<in> set (parse_lines (dropWhile ?P as)) \<Longrightarrow> ?thesis"
    proof -
      assume p: "part \<in> set (parse_lines (dropWhile ?P as))"
      have "length (dropWhile ?P as) < length ls" using Cons
        by (simp add: length_dropWhile_le less_Suc_eq_le)
      with "1.IH" p have "part = u ''<hr>'' \<or> (\<exists>l\<in>set (dropWhile ?P as). part = citation_html l) \<or>
          (\<exists>l\<in>set (dropWhile ?P as). part = heading_html l) \<or>
          (\<exists>pre l rest. dropWhile ?P as = pre @ l # rest \<and> part = para_html l rest)" by blast
      then show ?thesis
      proof (elim disjE exE conjE bexE)
        fix pre l rest assume d: "dropWhile ?P as = pre @ l # rest" and e: "part = para_html l rest"
        have "as = takeWhile ?P as @ dropWhile ?P as" by simp
        with d have "ls = (a # takeWhile ?P as @ pre) @ l # rest" using Cons by simp
        with e show ?thesis by blast
      next
        fix l assume "l \<in> set (dropWhile ?P as)" "part = citation_html l"
        then have "l \<in> set ls \<and> part = citation_html l" using Cons by (auto dest: set_dropWhileD)
        then show ?thesis by blast
      next
        fix l assume "l \<in> set (dropWhile ?P as)" "part = heading_html l"
        then have "l \<in> set ls \<and> part = heading_html l" using Cons by (auto dest: set_dropWhileD)
        then show ?thesis by blast
      qed simp
    qed
    have here: "part = para_html a as \<Longrightarrow> ?thesis"
    proof -
      assume "part = para_html a as"
      then have "ls = [] @ a # as \<and> part = para_html a as" using Cons by simp
      then show ?thesis by blast
    qed
    have hr: "part = u ''<hr>'' \<Longrightarrow> ?thesis" by simp
    have ci: "part = citation_html a \<Longrightarrow> ?thesis" using Cons by simp
    have he: "part = heading_html a \<Longrightarrow> ?thesis" using Cons by simp
    from "1.prems" Cons have "part \<in> set (parse_lines (a # as))" by simp
    then have "part = u ''<hr>'' \<or> part = citation_html a \<or> part = heading_html a \<or>
        part = para_html a as \<or> part \<in> set (parse_lines as) \<or>
        part \<in> set (parse_lines (dropWhile ?P as))"
      by (auto simp: parse_lines_Cons2 split: if_splits)
    then show ?thesis using lift lift2 here hr ci he by blast
  qed
qed

section \<open>Facts about the merge and the run\<close>














section \<open>Facts about the recovery\<close>



















lemma rstrip_dots_replicate:
  "\<not> endswith h [dot] \<Longrightarrow> rstrip_dots (h @ replicate k dot) = h"
proof -
  assume a: "\<not> endswith h [dot]"
  have "dropWhile (\<lambda>c. c = dot) (rev h) = rev h"
  proof (cases h rule: rev_cases)
    case Nil
    then show ?thesis by simp
  next
    case (snoc ys y)
    with a have "y \<noteq> dot" by (auto simp: endswith_def)
    with snoc show ?thesis by simp
  qed
  then have "dropWhile (\<lambda>c. c = dot) (replicate k dot @ rev h) = rev h"
    by (induction k) auto
  then show ?thesis by (simp add: rstrip_dots_def)
qed

lemma rstrip_dots_shape:
  "\<exists>k. g = rstrip_dots g @ replicate k dot \<and> \<not> endswith (rstrip_dots g) [dot]"
proof -
  let ?P = "\<lambda>c. c = dot"
  have t: "takeWhile ?P (rev g) = replicate (length (takeWhile ?P (rev g))) dot"
    by (rule replicate_length_same [symmetric]) (auto dest: set_takeWhileD)
  have "rev g = takeWhile ?P (rev g) @ dropWhile ?P (rev g)" by simp
  then have "g = rev (dropWhile ?P (rev g)) @ rev (takeWhile ?P (rev g))"
    by (metis rev_append rev_rev_ident)
  with t have 1: "g = rstrip_dots g @ replicate (length (takeWhile ?P (rev g))) dot"
    by (metis rstrip_dots_def rev_replicate)
  have 2: "\<not> endswith (rstrip_dots g) [dot]"
  proof (cases "dropWhile ?P (rev g)")
    case Nil
    then have "rstrip_dots g = []" by (simp only: rstrip_dots_def rev.simps)
    then show ?thesis by (simp add: endswith_def)
  next
    case (Cons y ys)
    then have "y \<noteq> dot" using hd_dropWhile [of ?P "rev g"] by auto
    moreover from Cons have "rstrip_dots g = rev ys @ [y]" by (simp only: rstrip_dots_def rev.simps)
    ultimately show ?thesis by (simp add: endswith_def)
  qed
  from 1 2 show ?thesis by blast
qed

section \<open>Facts about rendered pages\<close>

lemma compat_append: "compat p (t @ b) \<Longrightarrow> compat p t"
  by (induction p t rule: compat.induct) auto

lemma prefix_compat: "prefix p t \<Longrightarrow> compat p t"
  by (induction p t rule: compat.induct) auto

lemma clear_append: "clear p a \<Longrightarrow> clear p b \<Longrightarrow> clear p (a @ b)"
proof (induction a)
  case Nil
  then show ?case by simp
next
  case (Cons c a)
  then have "\<not> compat p (c # a)" "clear p (a @ b)" by simp_all
  moreover have "compat p ((c # a) @ b) \<Longrightarrow> compat p (c # a)" by (rule compat_append)
  ultimately show ?case by auto
qed

lemma clear_notin: "x \<notin> set s \<Longrightarrow> clear (x # p) s"
  by (induction s) auto

lemma clear_concat: "\<forall>x \<in> set xs. clear p x \<Longrightarrow> clear p (concat xs)"
  by (induction xs) (auto intro: clear_append)

lemma clear_join: "\<forall>x \<in> set xs. clear p x \<Longrightarrow> clear p sep \<Longrightarrow> clear p (join sep xs)"
  by (induction sep xs rule: join.induct) (auto intro: clear_append)

lemma re_search_clear:
  assumes "\<And>t. opn t \<noteq> None \<Longrightarrow> prefix p t"
  shows "clear p e \<Longrightarrow>
   re_search opn cls (e @ t) = map_option (\<lambda>(pre, g, r). (e @ pre, g, r)) (re_search opn cls t)"
proof (induction e)
  case Nil
  then show ?case by (simp add: option.map_ident)
next
  case (Cons x e)
  have "opn (x # e @ t) = None"
  proof (rule ccontr)
    assume "opn (x # e @ t) \<noteq> None"
    then have "prefix p ((x # e) @ t)" using assms by simp
    then have "compat p ((x # e) @ t)" by (rule prefix_compat)
    then have "compat p (x # e)" by (rule compat_append)
    with Cons.prems show False by simp
  qed
  moreover from Cons have "re_search opn cls (e @ t) =
      map_option (\<lambda>(pre, g, r). (e @ pre, g, r)) (re_search opn cls t)" by simp
  ultimately show ?case by (auto split: option.splits)
qed

lemma re_search_clear_None:
  assumes "\<And>t. opn t \<noteq> None \<Longrightarrow> prefix p t" "clear p s"
  shows "re_search opn cls s = None"
  using re_search_clear [of opn p s cls "[]", OF assms] by simp

lemma lit_prefix: "lit p t \<noteq> None \<Longrightarrow> prefix p t"
  by (simp add: lit_def split: if_splits)

lemma lede_open_prefix: "lede_open t \<noteq> None \<Longrightarrow> prefix lede_mark t"
  by (auto simp: lede_open_def lede_mark_def lit_def split: option.splits if_splits)

lemma lazy_group_exact:
  "e \<noteq> [] \<Longrightarrow> nl \<notin> set e \<Longrightarrow> x \<notin> set e \<Longrightarrow>
   lazy_group (x # cls) (e @ (x # cls) @ t) = Some (e, t)"
proof (induction e)
  case Nil
  then show ?case by simp
next
  case (Cons c e)
  show ?case
  proof (cases "e = []")
    case True
    with Cons.prems show ?thesis by simp
  next
    case False
    then obtain d e' where e: "e = d # e'" by (cases e) auto
    with Cons.prems have "\<not> prefix (x # cls) (e @ (x # cls) @ t)" by auto
    with Cons False show ?thesis by simp
  qed
qed

lemma strong_open_eq: "strong_open = lt # u ''strong>''" by code_simp

lemma strong_close_eq: "strong_close = lt # u ''/strong>''" by code_simp

lemma lede_mark_eq: "lede_mark = lt # u ''p class=\"post-lede\"''" by code_simp

lemma str_int_no_lt: "lt \<notin> set (str_int n)"
proof (induction n rule: str_int.induct)
  case (1 n)
  show ?case
  proof (cases "n < 10")
    case True
    then show ?thesis by (subst str_int.simps) simp
  next
    case False
    with 1 have "lt \<notin> set (str_int (n div 10))" by simp
    moreover have "48 + n mod 10 \<noteq> lt" by presburger
    ultimately show ?thesis using False by (subst str_int.simps) simp
  qed
qed

lemma month_name_no_lt: "lt \<notin> set (month_name m)"
  by (simp add: month_name_def u_def)

lemma format_date_long_no_lt: "lt \<notin> set (format_date_long dt)"
  using str_int_no_lt month_name_no_lt by (cases dt) (auto simp: u_def)

lemma post_slug_no_lt: "lt \<notin> set (post_slug dt)"
  using str_int_no_lt by (cases dt) (auto simp: u_def pad2_def)

lemma clear_escape: "clear (lt # p) (escape s)"
  using escape_no_raw by (intro clear_notin) simp

lemma clear_mark_notin: "lt \<notin> set s \<Longrightarrow> clear lede_mark s"
  unfolding lede_mark_eq by (rule clear_notin)

lemma clear_strong_notin: "lt \<notin> set s \<Longrightarrow> clear strong_open s"
  unfolding strong_open_eq by (rule clear_notin)

lemma post_head_clear_mark: "clear lede_mark (post_head dt)"
  unfolding post_head_def Let_def
  apply (intro clear_append)
  apply ((rule clear_mark_notin, rule format_date_long_no_lt) |
         (rule clear_mark_notin, rule post_slug_no_lt) | code_simp)+
  done

lemma post_tail_clear_mark: "clear lede_mark post_tail"
  by code_simp

lemma post_head_clear_strong: "clear strong_open (post_head dt)"
  unfolding post_head_def Let_def
  apply (intro clear_append)
  apply ((rule clear_strong_notin, rule format_date_long_no_lt) |
         (rule clear_strong_notin, rule post_slug_no_lt) | code_simp)+
  done

lemma html_of_clear_mark: "clear lede_mark (html_of x)"
proof (cases x)
  case (Plain t)
  then show ?thesis using escape_no_raw by (simp add: clear_mark_notin)
next
  case (Bold g)
  have "clear lede_mark (u ''<strong>'')" "clear lede_mark (u ''</strong>'')" by code_simp+
  moreover have "clear lede_mark (escape g)" using escape_no_raw by (simp add: clear_mark_notin)
  ultimately show ?thesis using Bold by (simp add: clear_append)
qed

lemma part_clear_mark:
  assumes "part \<in> set (parse_lines ls)"
  shows "clear lede_mark part"
proof -
  have e: "clear lede_mark (escape s)" for s using escape_no_raw by (simp add: clear_mark_notin)
  have c: "clear lede_mark (u ''<hr>'')" "clear lede_mark (u ''<p class=\"source\">'')"
    "clear lede_mark (u ''</p>'')" "clear lede_mark (u ''<h2>'')" "clear lede_mark (u ''</h2>'')"
    "clear lede_mark (u ''<p>'')"
    by code_simp+
  have p: "clear lede_mark (para_html l rest)" for l rest
    unfolding para_html_def
    by (intro clear_append clear_concat c) (auto simp: html_of_clear_mark)
  have ci: "clear lede_mark (citation_html l)" for l
    unfolding citation_html_def by (intro clear_append c e)
  have he: "clear lede_mark (heading_html l)" for l
    unfolding heading_html_def by (intro clear_append c e)
  from parse_lines_parts [OF assms] c(1) p ci he show ?thesis by auto
qed

lemma md_to_html_clear_mark: "clear lede_mark (md_to_html md)"
proof -
  have "clear lede_mark [nl]" by code_simp
  then show ?thesis
    unfolding md_to_html_def using part_clear_mark by (intro clear_join) auto
qed

lemma page_no_mark: "search_post_lede (render_post dt (md_to_html md)) = None"
proof -
  have "clear lede_mark (render_post dt (md_to_html md))"
    unfolding render_post_def
    by (intro clear_append post_head_clear_mark md_to_html_clear_mark post_tail_clear_mark)
  with lede_open_prefix show ?thesis
    unfolding search_post_lede_def by (intro re_search_clear_None [of lede_open lede_mark]) auto
qed

lemma join_split:
  "join sep (a @ [x] @ b) =
     concat (map (\<lambda>q. q @ sep) a) @ x @ concat (map (\<lambda>q. sep @ q) b)"
proof (induction a)
  case Nil
  show ?case
  proof (induction b arbitrary: x)
    case Nil
    then show ?case by simp
  next
    case (Cons y b)
    from Cons [of y] show ?case by simp
  qed
next
  case (Cons y a)
  then show ?case by (cases "a @ [x] @ b") auto
qed

lemma search_strong_page:
  assumes pc: "\<forall>q \<in> set pc. clear strong_open q"
    and x: "lt \<notin> set X" and e: "E \<noteq> []" "nl \<notin> set E" "lt \<notin> set E"
  shows "\<exists>front rear.
     search_strong (render_post dt (join [nl] (pc @ [u ''<p>'' @ X @ strong_open @ E @ strong_close @ Y] @ after))) =
       Some (front, E, rear)"
proof -
  let ?F = "post_head dt @ concat (map (\<lambda>q. q @ [nl]) pc) @ u ''<p>'' @ X"
  let ?B = "Y @ concat (map (\<lambda>q. [nl] @ q) after) @ post_tail"
  have page: "render_post dt (join [nl] (pc @ [u ''<p>'' @ X @ strong_open @ E @ strong_close @ Y] @ after)) =
      ?F @ (strong_open @ E @ strong_close @ ?B)"
    by (simp only: render_post_def join_split append_assoc)
  have n: "clear strong_open [nl]" "clear strong_open (u ''<p>'')" by code_simp+
  have "\<forall>q \<in> set (map (\<lambda>q. q @ [nl]) pc). clear strong_open q"
    using pc n by (auto intro: clear_append)
  then have "clear strong_open (concat (map (\<lambda>q. q @ [nl]) pc))" by (rule clear_concat)
  moreover from x have "clear strong_open X" by (rule clear_strong_notin)
  ultimately have cf: "clear strong_open ?F"
    using n(2) by (intro clear_append post_head_clear_strong)
  have lg: "lazy_group strong_close (E @ strong_close @ ?B) = Some (E, ?B)"
    unfolding strong_close_eq using e by (intro lazy_group_exact) auto
  have li: "lit strong_open (strong_open @ E @ strong_close @ ?B) = Some (E @ strong_close @ ?B)"
    by (simp add: lit_def)
  have ne: "strong_open @ E @ strong_close @ ?B \<noteq> []" using e by simp
  from re_search_here [of "strong_open @ E @ strong_close @ ?B" "lit strong_open"
      "E @ strong_close @ ?B" strong_close E ?B, OF ne li lg]
  have here: "re_search (lit strong_open) strong_close (strong_open @ E @ strong_close @ ?B) =
      Some ([], E, ?B)" .
  have "re_search (lit strong_open) strong_close (?F @ (strong_open @ E @ strong_close @ ?B)) =
      map_option (\<lambda>(pre, g, r). (?F @ pre, g, r))
        (re_search (lit strong_open) strong_close (strong_open @ E @ strong_close @ ?B))"
    using cf lit_prefix by (intro re_search_clear [of "lit strong_open" strong_open]) auto
  with here page have "search_strong (render_post dt
      (join [nl] (pc @ [u ''<p>'' @ X @ strong_open @ E @ strong_close @ Y] @ after))) =
      Some (?F, E, ?B)"
    by (simp add: search_strong_def strong_open_def strong_close_def)
  then show ?thesis by blast
qed

lemma recover_lede_page:
  assumes "md_to_html md = join [nl] (pc @ [u ''<p>'' @ X @ strong_open @ E @ strong_close @ Y] @ after)"
    and "\<forall>q \<in> set pc. clear strong_open q"
    and "lt \<notin> set X" "E \<noteq> []" "nl \<notin> set E" "lt \<notin> set E"
  shows "recover_lede (render_post dt (md_to_html md)) = rstrip_dots E"
proof -
  from search_strong_page [OF assms(2-6), of dt Y after] assms(1) obtain front rear where
    "search_strong (render_post dt (md_to_html md)) = Some (front, E, rear)" by auto
  with page_no_mark [of dt md] show ?thesis by (simp add: recover_lede_def)
qed

lemma nodstar_search: "nodstar s \<Longrightarrow> search_bold s = None"
  unfolding search_bold_None_iff nodstar_def by blast

lemma nodstar_mid: "nodstar (a @ m @ b) \<Longrightarrow> nodstar m"
proof -
  assume n: "nodstar (a @ m @ b)"
  show "nodstar m"
    unfolding nodstar_def
  proof
    assume "\<exists>x y. m = x @ dstar @ y"
    then obtain x y where "m = x @ dstar @ y" by blast
    then have "a @ m @ b = (a @ x) @ dstar @ (y @ b)" by simp
    with n show False unfolding nodstar_def by blast
  qed
qed

lemma py_strip_spaces: "\<exists>a b. s = a @ py_strip s @ b \<and> 42 \<notin> set a \<and> 42 \<notin> set b"
proof -
  have ns: "\<not> py_isspace 42" by (simp add: py_isspace_def)
  let ?a = "takeWhile py_isspace s"
  let ?b = "rev (takeWhile py_isspace (rev (py_lstrip s)))"
  have 1: "s = ?a @ py_lstrip s"
    by (simp add: py_lstrip_def)
  have "rev (py_lstrip s) = takeWhile py_isspace (rev (py_lstrip s)) @ dropWhile py_isspace (rev (py_lstrip s))"
    by simp
  then have "py_lstrip s = py_strip s @ ?b"
    unfolding py_strip_def py_rstrip_def by (metis rev_append rev_rev_ident)
  with 1 have "s = ?a @ py_strip s @ ?b" by metis
  moreover have "42 \<notin> set ?a" using ns by (auto dest: set_takeWhileD)
  moreover have "42 \<notin> set ?b" using ns by (auto dest: set_takeWhileD)
  ultimately show ?thesis by blast
qed

lemma nodstar_strip: "nodstar s \<Longrightarrow> nodstar (py_strip s)"
  using py_strip_spaces [of s] nodstar_mid by metis

lemma nodstar_clear: "nodstar s \<Longrightarrow> clear dstar (s @ [32])"
proof (induction s)
  case Nil
  then show ?case by (simp add: dstar_eq)
next
  case (Cons c s)
  from Cons.prems have "nodstar s" using nodstar_mid [of "[c]" s "[]"] by simp
  with Cons.IH have ih: "clear dstar (s @ [32])" .
  have "\<not> compat dstar (c # s @ [32])"
  proof (cases s)
    case Nil
    then show ?thesis by (simp add: dstar_eq)
  next
    case (Cons d s')
    have "\<not> (c = 42 \<and> d = 42)"
    proof
      assume "c = 42 \<and> d = 42"
      with Cons have "c # s = [] @ dstar @ s'" by (simp add: dstar_eq)
      with Cons.prems show False unfolding nodstar_def by blast
    qed
    with Cons show ?thesis by (auto simp: dstar_eq)
  qed
  with ih show ?case by simp
qed

lemma prefix_long: "length cls \<le> length x \<Longrightarrow> prefix cls (x @ y) = prefix cls x"
proof
  assume l: "length cls \<le> length x" and p: "prefix cls (x @ y)"
  from p obtain zs where "x @ y = cls @ zs" by (auto simp: prefix_def)
  then have "take (length cls) (x @ y) = take (length cls) (cls @ zs)" by simp
  with l have "take (length cls) x = cls" by simp
  then show "prefix cls x" by (metis take_is_prefix)
next
  assume "prefix cls x"
  then show "prefix cls (x @ y)" by (rule prefix_prefix)
qed

lemma lazy_group_ext_Some:
  "lazy_group cls (g @ cls @ r @ a) = Some (g, r @ a) \<Longrightarrow>
   lazy_group cls (g @ cls @ r @ b) = Some (g, r @ b)"
proof (induction g)
  case Nil
  from lazy_group_decomp [OF Nil] show ?case by simp
next
  case (Cons c g)
  from Cons.prems have cn: "c \<noteq> nl" by (auto split: if_splits)
  have pe: "prefix cls (g @ cls @ r @ b) = prefix cls (g @ cls @ r @ a)"
    using prefix_long [of cls "g @ cls" "r @ b"] prefix_long [of cls "g @ cls" "r @ a"] by simp
  show ?case
  proof (cases "prefix cls (g @ cls @ r @ a)")
    case True
    with Cons.prems cn have "g = []" by simp
    with cn show ?thesis by simp
  next
    case False
    with Cons.prems cn have "lazy_group cls (g @ cls @ r @ a) = Some (g, r @ a)"
      by (auto split: option.splits)
    from Cons.IH [OF this] False pe cn show ?thesis by simp
  qed
qed

lemma lazy_group_ext_None:
  "w \<noteq> [] \<Longrightarrow> lazy_group cls (w @ cls @ v @ a) = None \<Longrightarrow>
   lazy_group cls (w @ cls @ v @ b) = None"
proof (induction w)
  case Nil
  then show ?case by simp
next
  case (Cons c w)
  have pe: "prefix cls (w @ cls @ v @ b) = prefix cls (w @ cls @ v @ a)"
    using prefix_long [of cls "w @ cls" "v @ b"] prefix_long [of cls "w @ cls" "v @ a"] by simp
  show ?case
  proof (cases "c = nl")
    case True
    then show ?thesis by simp
  next
    case cn: False
    show ?thesis
    proof (cases "prefix cls (w @ cls @ v @ a)")
      case True
      with Cons.prems cn show ?thesis by simp
    next
      case False
      then have "w \<noteq> []" by auto
      moreover from Cons.prems False cn have "lazy_group cls (w @ cls @ v @ a) = None"
        by (auto split: option.splits)
      ultimately have "lazy_group cls (w @ cls @ v @ b) = None" by (rule Cons.IH)
      with False pe cn show ?thesis by simp
    qed
  qed
qed

lemma drop2_closer:
  "pre \<noteq> [] \<Longrightarrow> g \<noteq> [] \<Longrightarrow>
   \<exists>w v. w \<noteq> [] \<and> (\<forall>x. drop 2 (pre @ dstar @ g @ dstar @ r @ x) = w @ dstar @ v @ x)"
proof -
  assume p: "pre \<noteq> []" and g: "g \<noteq> []"
  consider c where "pre = [c]" | c d where "pre = [c, d]" | c d e rest where "pre = c # d # e # rest"
    using p by (cases pre; cases "tl pre"; cases "tl (tl pre)") auto
  then show ?thesis
  proof cases
    case 1
    then have "\<forall>x. drop 2 (pre @ dstar @ g @ dstar @ r @ x) = (42 # g) @ dstar @ r @ x"
      by (simp add: dstar_eq)
    then show ?thesis by blast
  next
    case 2
    then have "\<forall>x. drop 2 (pre @ dstar @ g @ dstar @ r @ x) = (dstar @ g) @ dstar @ r @ x"
      by simp
    moreover have "dstar @ g \<noteq> []" using g by simp
    ultimately show ?thesis by blast
  next
    case 3
    then have "\<forall>x. drop 2 (pre @ dstar @ g @ dstar @ r @ x) = (e # rest) @ dstar @ (g @ dstar @ r) @ x"
      by simp
    then show ?thesis by blast
  qed
qed

lemma re_search_ext:
  "re_search (lit dstar) dstar (pre @ dstar @ g @ dstar @ r @ a) = Some (pre, g, r @ a) \<Longrightarrow>
   re_search (lit dstar) dstar (pre @ dstar @ g @ dstar @ r @ b) = Some (pre, g, r @ b)"
proof (induction pre)
  case Nil
  have la: "lit dstar (dstar @ g @ dstar @ r @ x) = Some (g @ dstar @ r @ x)" for x
    by (simp add: lit_def)
  have ne: "dstar @ g @ dstar @ r @ x \<noteq> []" for x by (simp add: dstar_eq)
  have "lazy_group dstar (g @ dstar @ r @ a) = Some (g, r @ a)"
  proof (cases "lazy_group dstar (g @ dstar @ r @ a)")
    case None
    with Nil la [of a] show ?thesis
      by (auto simp: dstar_eq split: option.splits)
  next
    case (Some x)
    obtain g' r' where x: "x = (g', r')" by (cases x)
    from Some x have lg: "lazy_group dstar (g @ dstar @ r @ a) = Some (g', r')" by simp
    from re_search_here [of "dstar @ g @ dstar @ r @ a" "lit dstar" "g @ dstar @ r @ a" dstar g' r',
        OF ne [of a] la [of a] lg] Nil lg
    show ?thesis by simp
  qed
  then have "lazy_group dstar (g @ dstar @ r @ b) = Some (g, r @ b)" by (rule lazy_group_ext_Some)
  from re_search_here [of "dstar @ g @ dstar @ r @ b" "lit dstar" "g @ dstar @ r @ b" dstar g "r @ b",
      OF ne [of b] la [of b] this]
  show ?case by simp
next
  case (Cons c pre)
  let ?ta = "pre @ dstar @ g @ dstar @ r @ a"
  let ?tb = "pre @ dstar @ g @ dstar @ r @ b"
  let ?ia = "case lit dstar (c # ?ta) of None \<Rightarrow> None | Some t \<Rightarrow> lazy_group dstar t"
  let ?ib = "case lit dstar (c # ?tb) of None \<Rightarrow> None | Some t \<Rightarrow> lazy_group dstar t"
  from Cons.prems have ia: "?ia = None"
    by (auto split: option.splits prod.splits)
  with Cons.prems have "re_search (lit dstar) dstar ?ta = Some (pre, g, r @ a)"
    by (auto split: option.splits)
  then have ih: "re_search (lit dstar) dstar ?tb = Some (pre, g, r @ b)" by (rule Cons.IH)
  from Cons.prems have gne: "g \<noteq> []"
    using re_search_lit_decomp [of dstar dstar "(c # pre) @ dstar @ g @ dstar @ r @ a" "c # pre" g "r @ a"]
    by simp
  from drop2_closer [of "c # pre" g r, OF _ gne] obtain w v where
    w: "w \<noteq> []" "\<And>x. drop 2 ((c # pre) @ dstar @ g @ dstar @ r @ x) = w @ dstar @ v @ x"
    by auto
  have pe: "prefix dstar (c # ?tb) = prefix dstar (c # ?ta)"
    using prefix_long [of dstar "c # pre @ dstar" "g @ dstar @ r @ b"]
      prefix_long [of dstar "c # pre @ dstar" "g @ dstar @ r @ a"]
    by (simp add: dstar_eq)
  have ib: "?ib = None"
  proof (cases "prefix dstar (c # ?ta)")
    case False
    with pe show ?thesis by (simp add: lit_def)
  next
    case True
    with ia have "lazy_group dstar (drop 2 (c # ?ta)) = None"
      by (simp add: lit_def dstar_eq)
    with w(2) [of a] have "lazy_group dstar (w @ dstar @ v @ a) = None" by simp
    from lazy_group_ext_None [OF w(1) this, of b] w(2) [of b]
    have "lazy_group dstar (drop 2 (c # ?tb)) = None" by simp
    with True pe show ?thesis by (simp add: lit_def dstar_eq)
  qed
  with ih show ?case by simp
qed

lemma search_bold_strip_ext:
  assumes "search_bold l = Some (pre, g, r)"
  shows "\<exists>p' r'. search_bold (py_strip l @ K) = Some (p', g, r' @ K)"
proof -
  from py_strip_spaces [of l] obtain w1 w2 where
    l: "l = w1 @ py_strip l @ w2" "42 \<notin> set w1" "42 \<notin> set w2" by blast
  let ?m = "py_strip l"
  from assms l(1) have "re_search (lit dstar) dstar (w1 @ (?m @ w2)) = Some (pre, g, r)"
    by (simp add: search_bold_def)
  with re_search_skip [OF l(2), of dstar "?m @ w2"]
  have sk: "map_option (\<lambda>(pre, g, r). (w1 @ pre, g, r)) (re_search (lit dstar) dstar (?m @ w2)) =
      Some (pre, g, r)" by simp
  then obtain x where x: "re_search (lit dstar) dstar (?m @ w2) = Some x" by auto
  obtain p' g' r0 where "x = (p', g', r0)" by (cases x) auto
  with sk x have p': "re_search (lit dstar) dstar (?m @ w2) = Some (p', g, r)" by simp
  from re_search_lit_decomp [OF p'] have d: "?m @ w2 = (p' @ dstar @ g @ dstar) @ r" by simp
  have "\<exists>r'. r = r' @ w2 \<and> ?m = p' @ dstar @ g @ dstar @ r'"
  proof -
    define X where "X = p' @ dstar @ g @ dstar"
    from d have "?m @ w2 = X @ r" by (simp add: X_def)
    then obtain us where "(?m = X @ us \<and> us @ w2 = r) \<or> (?m @ us = X \<and> w2 = us @ r)"
      unfolding append_eq_append_conv2 by blast
    then have
      us: "(?m = (p' @ dstar @ g @ dstar) @ us \<and> us @ w2 = r) \<or>
           (?m @ us = p' @ dstar @ g @ dstar \<and> w2 = us @ r)"
      by (simp add: X_def)
    show ?thesis
    proof (cases "?m = (p' @ dstar @ g @ dstar) @ us \<and> us @ w2 = r")
      case True
      then show ?thesis by auto
    next
      case False
      with us have u: "?m @ us = p' @ dstar @ g @ dstar" "w2 = us @ r" by auto
      have "us = []"
      proof (rule ccontr)
        assume "us \<noteq> []"
        then have "last (?m @ us) = last us" by simp
        with u(1) have "last us = 42" by (simp add: dstar_eq)
        with \<open>us \<noteq> []\<close> have "42 \<in> set us" by (metis last_in_set)
        with u(2) l(3) show False by simp
      qed
      with u have "r = [] @ w2 \<and> ?m = p' @ dstar @ g @ dstar @ []" by simp
      then show ?thesis by blast
    qed
  qed
  then obtain r' where r': "r = r' @ w2" "?m = p' @ dstar @ g @ dstar @ r'" by blast
  from p' r' have "re_search (lit dstar) dstar (p' @ dstar @ g @ dstar @ r' @ w2) = Some (p', g, r' @ w2)"
    by simp
  then have "re_search (lit dstar) dstar (p' @ dstar @ g @ dstar @ r' @ K) = Some (p', g, r' @ K)"
    by (rule re_search_ext)
  with r'(2) have "search_bold (?m @ K) = Some (p', g, r' @ K)"
    by (simp add: search_bold_def)
  then show ?thesis by blast
qed

lemma space_eq: "u '' '' = [32]" by (simp add: u_def)

lemma nodstar_join_clear:
  "\<forall>x \<in> set xs. nodstar x \<Longrightarrow> clear dstar (concat (map (\<lambda>q. q @ u '' '') xs))"
  by (intro clear_concat) (auto simp: space_eq nodstar_clear)

lemma search_bold_clear:
  "clear dstar e \<Longrightarrow>
   search_bold (e @ t) = map_option (\<lambda>(pre, g, r). (e @ pre, g, r)) (search_bold t)"
  unfolding search_bold_def using lit_prefix by (intro re_search_clear [of "lit dstar" dstar]) auto

lemma plain_para:
  assumes "L \<noteq> []" "\<forall>x \<in> set L. nodstar x"
  shows "inline_format (join (u '' '') L) = escape (join (u '' '') L)"
proof -
  from assms(1) obtain xs c where L: "L = xs @ [c]" by (cases L rule: rev_cases) auto
  let ?J = "concat (map (\<lambda>q. q @ u '' '') xs)"
  have j: "join (u '' '') L = ?J @ c"
    using join_split [of "u '' ''" xs c "[]"] L by simp
  from assms(2) L have "clear dstar ?J" by (intro nodstar_join_clear) auto
  from search_bold_clear [OF this, of c] assms(2) L have "search_bold (?J @ c) = None"
    by (simp add: nodstar_search)
  with j have "search_bold (escape (join (u '' '') L)) = None"
    by (simp add: search_bold_escape)
  then show ?thesis by (simp add: inline_format_def re_sub_bold_None)
qed

lemma bold_para:
  assumes "\<forall>x \<in> set xs. nodstar x" "search_bold l = Some (pre, g, r)"
  shows "\<exists>X Y. inline_format (join (u '' '') (xs @ [py_strip l] @ ys)) =
      X @ strong_open @ escape g @ strong_close @ Y \<and> lt \<notin> set X"
proof -
  let ?J = "concat (map (\<lambda>q. q @ u '' '') xs)"
  let ?K = "concat (map (\<lambda>q. u '' '' @ q) ys)"
  have j: "join (u '' '') (xs @ [py_strip l] @ ys) = ?J @ py_strip l @ ?K"
    by (rule join_split)
  from search_bold_strip_ext [OF assms(2), of ?K] obtain p' r' where
    s: "search_bold (py_strip l @ ?K) = Some (p', g, r' @ ?K)" by blast
  from assms(1) have "clear dstar ?J" by (rule nodstar_join_clear)
  from search_bold_clear [OF this, of "py_strip l @ ?K"] s
  have "search_bold (?J @ py_strip l @ ?K) = Some (?J @ p', g, r' @ ?K)" by simp
  with j have "search_bold (escape (join (u '' '') (xs @ [py_strip l] @ ys))) =
      Some (escape (?J @ p'), escape g, escape (r' @ ?K))"
    by (simp add: search_bold_escape)
  from re_sub_bold_Some [OF this]
  have "inline_format (join (u '' '') (xs @ [py_strip l] @ ys)) =
      escape (?J @ p') @ strong_open @ escape g @ strong_close @ re_sub_bold (escape (r' @ ?K))"
    by (simp add: inline_format_def strong_open_def strong_close_def)
  moreover have "lt \<notin> set (escape (?J @ p'))" using escape_no_raw by simp
  ultimately show ?thesis by blast
qed

lemma not_break:
  "\<not> para_break line \<Longrightarrow>
   line \<noteq> [] \<and> \<not> re_match_rule line \<and> \<not> starts_citation line \<and> \<not> re_match_emoji line"
  by (simp add: para_break_def starts_citation_def)

lemma is_break:
  "line = [] \<or> re_match_rule line \<or> starts_citation line \<or> re_match_emoji line \<Longrightarrow> para_break line"
  by (auto simp: para_break_def starts_citation_def)

lemma parse_lines_step:
  "parse_lines (b # ls) =
     (if py_strip b = [] then parse_lines ls
      else if re_match_rule (py_strip b) then u ''<hr>'' # parse_lines ls
      else if starts_citation (py_strip b) then citation_html b # parse_lines ls
      else if re_match_emoji (py_strip b) then heading_html b # parse_lines ls
      else (u ''<p>'' @ inline_format (join (u '' '')
             (py_strip b # map py_strip (takeWhile (\<lambda>x. \<not> para_break (py_strip x)) ls))) @ u ''</p>'') #
           parse_lines (dropWhile (\<lambda>x. \<not> para_break (py_strip x)) ls))"
  by (simp add: parse_lines_Cons2 para_html_def para_text_def inline_format_segments)

lemma block_clear_strong:
  "clear strong_open (u ''<hr>'')" "clear strong_open (citation_html b)"
  "clear strong_open (heading_html b)" "clear strong_open (u ''<p>'' @ escape t @ u ''</p>'')"
proof -
  have e: "clear strong_open (escape s)" for s using escape_no_raw by (simp add: clear_strong_notin)
  have c: "clear strong_open (u ''<hr>'')" "clear strong_open (u ''<p class=\"source\">'')"
    "clear strong_open (u ''</p>'')" "clear strong_open (u ''<h2>'')" "clear strong_open (u ''</h2>'')"
    "clear strong_open (u ''<p>'')"
    by code_simp+
  show "clear strong_open (u ''<hr>'')" by (rule c)
  show "clear strong_open (citation_html b)"
    unfolding citation_html_def by (intro clear_append c e)
  show "clear strong_open (heading_html b)"
    unfolding heading_html_def by (intro clear_append c e)
  show "clear strong_open (u ''<p>'' @ escape t @ u ''</p>'')"
    by (intro clear_append c e)
qed

lemma first_bold_Cons: "clear strong_open q \<Longrightarrow> first_bold parts e \<Longrightarrow> first_bold (q # parts) e"
proof -
  assume q: "clear strong_open q" and "first_bold parts e"
  then obtain pc X Y after where
    p: "parts = pc @ [u ''<p>'' @ X @ strong_open @ e @ strong_close @ Y] @ after"
      "\<forall>q \<in> set pc. clear strong_open q" "lt \<notin> set X"
    unfolding first_bold_def by blast
  from p(1) have "q # parts = (q # pc) @ [u ''<p>'' @ X @ strong_open @ e @ strong_close @ Y] @ after"
    by simp
  moreover from q p(2) have "\<forall>x \<in> set (q # pc). clear strong_open x" by simp
  ultimately show ?thesis unfolding first_bold_def using p(3) by blast
qed

lemma first_bold_here:
  assumes "\<forall>x \<in> set xs. nodstar x" "search_bold l = Some (pre, g, r)"
  shows "first_bold
     ((u ''<p>'' @ inline_format (join (u '' '') (xs @ [py_strip l] @ ys)) @ u ''</p>'') # rest)
     (escape g)"
proof -
  from bold_para [OF assms, of ys] obtain X Y where
    i: "inline_format (join (u '' '') (xs @ [py_strip l] @ ys)) =
      X @ strong_open @ escape g @ strong_close @ Y" "lt \<notin> set X" by blast
  have "(u ''<p>'' @ inline_format (join (u '' '') (xs @ [py_strip l] @ ys)) @ u ''</p>'') # rest =
      [] @ [u ''<p>'' @ X @ strong_open @ escape g @ strong_close @ (Y @ u ''</p>'')] @ rest"
    using i(1) by simp
  moreover have "\<forall>q \<in> set ([] :: pystr list). clear strong_open q" by simp
  ultimately show ?thesis unfolding first_bold_def using i(2) by blast
qed

lemma parse_first_bold:
  assumes l: "\<not> para_break (py_strip l)" and sb: "search_bold l = Some (pre, g, r)"
  shows "\<forall>b \<in> set B. para_break (py_strip b) \<or> nodstar b \<Longrightarrow>
     first_bold (parse_lines (B @ l # R)) (escape g)"
proof (induction B rule: length_induct)
  case (1 B)
  let ?P = "\<lambda>x. \<not> para_break (py_strip x)"
  note nb = not_break [OF l]
  show ?case
  proof (cases B)
    case Nil
    have "parse_lines (l # R) =
        (u ''<p>'' @ inline_format (join (u '' '') ([] @ [py_strip l] @ map py_strip (takeWhile ?P R))) @
           u ''</p>'') # parse_lines (dropWhile ?P R)"
      using nb by (simp add: parse_lines_step)
    moreover have "\<forall>x \<in> set ([] :: pystr list). nodstar x" by simp
    ultimately show ?thesis using first_bold_here [OF _ sb, of "[]"] Nil by simp
  next
    case (Cons b B')
    have ih: "first_bold (parse_lines (C @ l # R)) (escape g)"
      if "length C \<le> length B'" "set C \<subseteq> set B'" for C
    proof -
      from that(1) Cons have "length C < length B" by simp
      moreover from that(2) Cons "1.prems" have "\<forall>b \<in> set C. para_break (py_strip b) \<or> nodstar b"
        by auto
      ultimately show ?thesis using "1.IH" by blast
    qed
    have ih': "first_bold (parse_lines (B' @ l # R)) (escape g)"
      by (rule ih) simp_all
    consider (blank) "py_strip b = []"
      | (rule) "py_strip b \<noteq> []" "re_match_rule (py_strip b)"
      | (cite) "py_strip b \<noteq> []" "\<not> re_match_rule (py_strip b)" "starts_citation (py_strip b)"
      | (head) "py_strip b \<noteq> []" "\<not> re_match_rule (py_strip b)" "\<not> starts_citation (py_strip b)"
          "re_match_emoji (py_strip b)"
      | (para) "py_strip b \<noteq> []" "\<not> re_match_rule (py_strip b)" "\<not> starts_citation (py_strip b)"
          "\<not> re_match_emoji (py_strip b)"
      by blast
    then show ?thesis
    proof cases
      case blank
      then have "parse_lines (B @ l # R) = parse_lines (B' @ l # R)"
        using Cons by (simp add: parse_lines_step)
      with ih' show ?thesis by simp
    next
      case rule
      then have "parse_lines (B @ l # R) = u ''<hr>'' # parse_lines (B' @ l # R)"
        using Cons by (simp add: parse_lines_step)
      with first_bold_Cons [OF block_clear_strong(1) ih'] show ?thesis by simp
    next
      case cite
      then have "parse_lines (B @ l # R) = citation_html b # parse_lines (B' @ l # R)"
        using Cons by (simp add: parse_lines_step)
      with first_bold_Cons [OF block_clear_strong(2) ih'] show ?thesis by simp
    next
      case head
      then have "parse_lines (B @ l # R) = heading_html b # parse_lines (B' @ l # R)"
        using Cons by (simp add: parse_lines_step)
      with first_bold_Cons [OF block_clear_strong(3) ih'] show ?thesis by simp
    next
      case para
      then have npb: "\<not> para_break (py_strip b)"
        by (simp add: para_break_def starts_citation_def)
      with "1.prems" Cons have nsb: "nodstar b" by auto
      have step: "parse_lines (B @ l # R) =
          (u ''<p>'' @ inline_format (join (u '' '')
             (py_strip b # map py_strip (takeWhile ?P (B' @ l # R)))) @ u ''</p>'') #
           parse_lines (dropWhile ?P (B' @ l # R))"
        using para Cons by (simp add: parse_lines_step)
      show ?thesis
      proof (cases "\<forall>x \<in> set B'. ?P x")
        case True
        then have tw: "takeWhile ?P (B' @ l # R) = B' @ l # takeWhile ?P R"
          using l by (simp add: takeWhile_append2)
        have ns: "\<forall>x \<in> set (map py_strip (b # B')). nodstar x"
        proof -
          have "nodstar x" if "x \<in> set (b # B')" for x
          proof -
            from that True npb have "\<not> para_break (py_strip x)" by auto
            with that "1.prems" Cons show ?thesis by auto
          qed
          then show ?thesis by (auto intro: nodstar_strip)
        qed
        have "py_strip b # map py_strip (takeWhile ?P (B' @ l # R)) =
            map py_strip (b # B') @ [py_strip l] @ map py_strip (takeWhile ?P R)"
          by (simp add: tw)
        with step first_bold_here [OF ns sb, of "map py_strip (takeWhile ?P R)"
            "parse_lines (dropWhile ?P (B' @ l # R))"]
        show ?thesis by simp
      next
        case False
        then obtain x where x: "x \<in> set B'" "\<not> ?P x" by blast
        from x have tw: "takeWhile ?P (B' @ l # R) = takeWhile ?P B'"
          by (intro takeWhile_append1) auto
        from x have dw: "dropWhile ?P (B' @ l # R) = dropWhile ?P B' @ l # R"
          by (intro dropWhile_append1) auto
        let ?L = "py_strip b # map py_strip (takeWhile ?P B')"
        have ns: "\<forall>y \<in> set ?L. nodstar y"
        proof -
          have "nodstar y" if "y \<in> set (takeWhile ?P B')" for y
          proof -
            from that have "y \<in> set B'" "?P y" by (auto dest: set_takeWhileD)
            with "1.prems" Cons show ?thesis by auto
          qed
          with nsb show ?thesis by (auto intro: nodstar_strip)
        qed
        have "inline_format (join (u '' '') ?L) = escape (join (u '' '') ?L)"
          using ns by (intro plain_para) auto
        with step tw dw have st: "parse_lines (B @ l # R) =
            (u ''<p>'' @ escape (join (u '' '') ?L) @ u ''</p>'') #
              parse_lines (dropWhile ?P B' @ l # R)"
          by simp
        have "first_bold (parse_lines (dropWhile ?P B' @ l # R)) (escape g)"
          by (rule ih) (auto simp: length_dropWhile_le dest: set_dropWhileD)
        from first_bold_Cons [OF block_clear_strong(4) this] st show ?thesis by simp
      qed
    qed
  qed
qed

lemma esc_char_length: "length (esc_char c) \<ge> 1 \<and> (special c \<longrightarrow> length (esc_char c) > 1 \<and> amp \<in> set (esc_char c))"
  by (auto simp: esc_char_def special_def u_def)

lemma escape_length: "length s \<le> length (escape s)"
proof (induction s)
  case Nil
  then show ?case by (simp add: escape_Nil)
next
  case (Cons c s)
  with esc_char_length [of c] show ?case by (simp add: escape_Cons)
qed

lemma escape_special:
  "\<exists>c \<in> set s. special c \<Longrightarrow> length s < length (escape s) \<and> amp \<in> set (escape s)"
proof (induction s)
  case Nil
  then show ?case by simp
next
  case (Cons c s)
  show ?case
  proof (cases "special c")
    case True
    with esc_char_length [of c] escape_length [of s] show ?thesis by (simp add: escape_Cons)
  next
    case False
    with Cons have "length s < length (escape s) \<and> amp \<in> set (escape s)" by simp
    with esc_char_length [of c] show ?thesis by (simp add: escape_Cons)
  qed
qed

lemma escape_not_idem: "\<exists>c \<in> set s. special c \<Longrightarrow> escape (escape s) \<noteq> escape s"
proof -
  assume a: "\<exists>c \<in> set s. special c"
  then have "amp \<in> set (escape s)" using escape_special by blast
  moreover have "special amp" by (simp add: special_def)
  ultimately have "\<exists>c \<in> set (escape s). special c" by blast
  then have "length (escape s) < length (escape (escape s))" using escape_special by blast
  then show ?thesis by auto
qed

lemma escape_id: "\<forall>c \<in> set s. \<not> special c \<Longrightarrow> escape s = s"
  by (induction s) (auto simp: escape_Nil escape_Cons esc_char_def special_def)

lemma escape_twice_map: "escape (escape s) = concat (map (\<lambda>c. escape (esc_char c)) s)"
  by (induction s) (simp_all add: escape_Nil escape_Cons escape_append)

lemma escape_replicate_dot: "escape (replicate k dot) = replicate k dot"
  by (intro escape_id) (auto simp: special_def)

lemma escape_not_endswith: "\<not> endswith h [dot] \<Longrightarrow> \<not> endswith (escape h) [dot]"
proof (cases h rule: rev_cases)
  case Nil
  then show ?thesis by (simp add: escape_Nil endswith_def)
next
  case (snoc h' c)
  assume "\<not> endswith h [dot]"
  with snoc have "c \<noteq> dot" by (simp add: endswith_def)
  then have "esc_char c \<noteq> [] \<and> last (esc_char c) \<noteq> dot"
    by (auto simp: esc_char_def u_def)
  then have "last (escape h' @ esc_char c) \<noteq> dot \<and> escape h' @ esc_char c \<noteq> []" by simp
  then have "\<not> suffix [dot] (escape h' @ esc_char c)"
    by (metis append_butlast_last_id last_snoc suffix_def last_appendR not_Cons_self2)
  with snoc show ?thesis
    by (simp add: escape_append escape_Cons escape_Nil endswith_def)
qed

lemma rstrip_dots_escape: "rstrip_dots (escape g) = escape (rstrip_dots g)"
proof -
  from rstrip_dots_shape [of g] obtain k where
    k: "g = rstrip_dots g @ replicate k dot" "\<not> endswith (rstrip_dots g) [dot]" by blast
  from k(1) have "escape g = escape (rstrip_dots g) @ replicate k dot"
    by (metis escape_append escape_replicate_dot)
  with rstrip_dots_replicate [OF escape_not_endswith [OF k(2)], of k] show ?thesis by simp
qed

lemma rstrip_dots_one:
  assumes "\<not> endswith g (u ''..'')"
  shows "rstrip_dots g = (if endswith g [dot] then butlast g else g)"
proof (cases "endswith g [dot]")
  case False
  with rstrip_dots_replicate [of g 0] show ?thesis by simp
next
  case True
  then obtain h where h: "g = h @ [dot]" by (auto simp: endswith_def suffix_def)
  with assms have "\<not> endswith h [dot]"
    by (auto simp: endswith_def suffix_def u_def)
  from rstrip_dots_replicate [OF this, of 1] h True show ?thesis by simp
qed

lemma escape_group:
  "g \<noteq> [] \<Longrightarrow> nl \<notin> set g \<Longrightarrow> escape g \<noteq> [] \<and> nl \<notin> set (escape g) \<and> lt \<notin> set (escape g)"
proof -
  assume g: "g \<noteq> []" "nl \<notin> set g"
  from g(1) escape_length [of g] have "escape g \<noteq> []" by (cases g) auto
  moreover have "nl \<notin> set (escape g)"
    using g(2) esc_char_set by (fastforce simp: escape_eq_spec escape_spec_def)
  ultimately show ?thesis using escape_no_raw by blast
qed

lemma rendered_first_bold:
  assumes "body_lines (split_nl (py_strip md)) = B @ l # R"
    and "\<forall>b \<in> set B. para_break (py_strip b) \<or> nodstar b"
    and "\<not> para_break (py_strip l)" and "search_bold l = Some (pre, g, r)"
  shows "search_post_lede (render_post dt (md_to_html md)) = None \<and>
     (\<exists>front rear. search_strong (render_post dt (md_to_html md)) = Some (front, escape g, rear)) \<and>
     recover_lede (render_post dt (md_to_html md)) = escape (rstrip_dots g)"
proof -
  from search_bold_decomp [OF assms(4)] have g: "g \<noteq> []" "nl \<notin> set g" by simp_all
  note eg = escape_group [OF g]
  from parse_first_bold [OF assms(3,4,2), of R] assms(1)
  have "first_bold (parse_lines (body_lines (split_nl (py_strip md)))) (escape g)" by simp
  then obtain pc X Y after where
    p: "parse_lines (body_lines (split_nl (py_strip md))) =
        pc @ [u ''<p>'' @ X @ strong_open @ escape g @ strong_close @ Y] @ after"
      "\<forall>q \<in> set pc. clear strong_open q" "lt \<notin> set X"
    unfolding first_bold_def by blast
  from p(1) have md: "md_to_html md =
      join [nl] (pc @ [u ''<p>'' @ X @ strong_open @ escape g @ strong_close @ Y] @ after)"
    by (simp add: md_to_html_def)
  from search_strong_page [OF p(2,3), of "escape g" dt Y after] eg md
  have s: "\<exists>front rear. search_strong (render_post dt (md_to_html md)) = Some (front, escape g, rear)"
    by simp
  from recover_lede_page [OF md p(2,3), of dt] eg
  have "recover_lede (render_post dt (md_to_html md)) = rstrip_dots (escape g)" by simp
  with s page_no_mark [of dt md] show ?thesis by (simp add: rstrip_dots_escape)
qed

lemma join_contains: "x \<in> set xs \<Longrightarrow> \<exists>a b. join sep xs = a @ x @ b"
proof -
  assume "x \<in> set xs"
  then obtain ys zs where "xs = ys @ [x] @ zs" by (auto simp: in_set_conv_decomp)
  with join_split [of sep ys x zs] show ?thesis by blast
qed

lemma render_index_item:
  assumes "p \<in> set posts"
  shows "\<exists>a b. render_index posts = a @ index_item p @ b"
proof -
  from assms have "index_item p \<in> set (map index_item posts)" by simp
  from join_contains [OF this, of "[nl]"] obtain a b where
    j: "join [nl] (map index_item posts) = a @ index_item p @ b" by blast
  from assms have "map index_item posts \<noteq> []" by auto
  with j have "render_index posts = (index_head @ a) @ index_item p @ (b @ index_tail)"
    by (simp add: render_index_def Let_def)
  then show ?thesis by blast
qed

section \<open>The claims\<close>

text \<open>
  Claim C3. The escape operation, which replaces the ampersand first and then
  \<open><\<close>, \<open>>\<close> and the double quote, is the character-by-character table \<open>esc_char\<close>:
  \<open>&\<close> becomes \<open>&amp;\<close>, \<open><\<close> becomes \<open>&lt;\<close>, \<open>>\<close> becomes \<open>&gt;\<close>, the double
  quote becomes \<open>&quot;\<close>, and every other character (the single quote among them) stands
  for itself; no raw \<open><\<close>, \<open>>\<close> or double quote is left in its result. The rendered
  document is the parts of the block loop joined by newlines. Whenever the loop stands at a
  line that is not blank, not a rule, not a citation and not a heading, it emits one
  paragraph for that line and its continuation lines: the text of the paragraph (the
  trimmed lines joined by spaces) is cut into its plain and bold pieces, which put together
  give the text back, and the part emitted is the concatenation of the escaped pieces, the
  bold ones wrapped in the strong tags, between \<open><p>\<close> and \<open></p>\<close>. Every part of
  every rendered document is a rule, a citation, a heading or such a paragraph of some
  line of the document and the lines after it. So every character of a paragraph's source
  outside the bold markers goes through the escape, next to a bold marker or not, and no
  double quote is left in the paragraph at all; the only raw \<open><\<close> and \<open>>\<close> in it are
  those of the strong tags.
\<close>

theorem escape_correct:
  "escape text = escape_spec text \<and>
   esc_char amp = u ''&amp;'' \<and> esc_char lt = u ''&lt;'' \<and> esc_char gt = u ''&gt;'' \<and>
   esc_char quot = u ''&quot;'' \<and> (\<forall>c. \<not> special c \<longrightarrow> esc_char c = [c]) \<and> \<not> special 39 \<and>
   lt \<notin> set (escape text) \<and> gt \<notin> set (escape text) \<and> quot \<notin> set (escape text) \<and>
   concat (map source_of (bold_segments text)) = text \<and>
   inline_format text = concat (map html_of (bold_segments text)) \<and>
   quot \<notin> set (inline_format text) \<and>
   md_to_html text = join [nl] (parse_lines (body_lines (split_nl (py_strip text)))) \<and>
   (\<forall>l ls. py_strip l \<noteq> [] \<and> \<not> re_match_rule (py_strip l) \<and> \<not> starts_citation (py_strip l) \<and>
        \<not> re_match_emoji (py_strip l) \<longrightarrow>
      parse_lines (l # ls) =
        (u ''<p>'' @ concat (map html_of (bold_segments (para_text l ls))) @ u ''</p>'') #
        parse_lines (dropWhile (\<lambda>x. \<not> para_break (py_strip x)) ls)) \<and>
   (\<forall>lines part. part \<in> set (parse_lines lines) \<longrightarrow>
      part = u ''<hr>'' \<or> (\<exists>l\<in>set lines. part = citation_html l) \<or>
      (\<exists>l\<in>set lines. part = heading_html l) \<or>
      (\<exists>pre l rest. lines = pre @ l # rest \<and>
         part = u ''<p>'' @ concat (map html_of (bold_segments (para_text l rest))) @ u ''</p>'')) \<and>
   (\<forall>l ls. para_text l ls =
      join (u '' '') (py_strip l # map py_strip (takeWhile (\<lambda>x. \<not> para_break (py_strip x)) ls)) \<and>
      concat (map source_of (bold_segments (para_text l ls))) = para_text l ls \<and>
      quot \<notin> set (concat (map html_of (bold_segments (para_text l ls))))) \<and>
   (\<forall>t g. html_of (Plain t) = escape t \<and> html_of (Bold g) = u ''<strong>'' @ escape g @ u ''</strong>'' \<and>
      source_of (Plain t) = t \<and> source_of (Bold g) = u ''**'' @ g @ u ''**'')"
proof -
  have table: "esc_char amp = u ''&amp;'' \<and> esc_char lt = u ''&lt;'' \<and> esc_char gt = u ''&gt;'' \<and>
      esc_char quot = u ''&quot;'' \<and> (\<forall>c. \<not> special c \<longrightarrow> esc_char c = [c]) \<and> \<not> special 39"
    by (simp add: esc_char_def special_def)
  have q: "quot \<notin> set (concat (map html_of (bold_segments s)))" for s
    using html_of_no_quot by auto
  have first: "escape text = escape_spec text \<and>
      lt \<notin> set (escape text) \<and> gt \<notin> set (escape text) \<and> quot \<notin> set (escape text) \<and>
      concat (map source_of (bold_segments text)) = text \<and>
      inline_format text = concat (map html_of (bold_segments text)) \<and>
      quot \<notin> set (inline_format text)"
    using q [of "text"]
    by (simp add: escape_eq_spec [symmetric] escape_no_raw source_of_bold_segments
        inline_format_segments [symmetric])
  have para: "\<forall>l ls. py_strip l \<noteq> [] \<and> \<not> re_match_rule (py_strip l) \<and> \<not> starts_citation (py_strip l) \<and>
        \<not> re_match_emoji (py_strip l) \<longrightarrow>
      parse_lines (l # ls) =
        (u ''<p>'' @ concat (map html_of (bold_segments (para_text l ls))) @ u ''</p>'') #
        parse_lines (dropWhile (\<lambda>x. \<not> para_break (py_strip x)) ls)"
    using parse_lines_para by (simp add: para_html_def)
  have parts: "\<forall>lines part. part \<in> set (parse_lines lines) \<longrightarrow>
      part = u ''<hr>'' \<or> (\<exists>l\<in>set lines. part = citation_html l) \<or>
      (\<exists>l\<in>set lines. part = heading_html l) \<or>
      (\<exists>pre l rest. lines = pre @ l # rest \<and>
         part = u ''<p>'' @ concat (map html_of (bold_segments (para_text l rest))) @ u ''</p>'')"
    using parse_lines_parts unfolding para_html_def by blast
  have pt: "\<forall>l ls. para_text l ls =
      join (u '' '') (py_strip l # map py_strip (takeWhile (\<lambda>x. \<not> para_break (py_strip x)) ls)) \<and>
      concat (map source_of (bold_segments (para_text l ls))) = para_text l ls \<and>
      quot \<notin> set (concat (map html_of (bold_segments (para_text l ls))))"
    using q by (simp add: para_text_def source_of_bold_segments)
  have segs: "\<forall>t g. html_of (Plain t) = escape t \<and> html_of (Bold g) = u ''<strong>'' @ escape g @ u ''</strong>'' \<and>
      source_of (Plain t) = t \<and> source_of (Bold g) = u ''**'' @ g @ u ''**''"
    by (simp add: dstar_def u_def)
  have md: "md_to_html text = join [nl] (parse_lines (body_lines (split_nl (py_strip text))))"
    by (simp add: md_to_html_def)
  from table first md para parts pt segs show ?thesis by blast
qed

theorem escape_correct_witness:
  "escape (u ''a<b & \"c\" > 'd' '') = u ''a&lt;b &amp; &quot;c&quot; &gt; 'd' '' \<and>
   esc_char 39 = [39] \<and>
   inline_format (u ''**<b>** & **\"**x'') = u ''<strong>&lt;b&gt;</strong> &amp; <strong>&quot;</strong>x'' \<and>
   md_to_html (u ''A **<b>** & **\"**x\<newline>  more > 'q' \<newline>\<newline>z'') =
     u ''<p>A <strong>&lt;b&gt;</strong> &amp; <strong>&quot;</strong>x more &gt; 'q'</p>\<newline><p>z</p>'' \<and>
   u ''<p>z</p>'' \<in> set (parse_lines [u ''A **<b>** & **\"**x'', u ''  more > 'q' '', [], u ''z''])"
proof -
  let ?l = "u ''A **<b>** & **\"**x''"
  let ?ls = "[u ''  more > 'q' '', [], u ''z'']"
  let ?D = "u ''A **<b>** & **\"**x\<newline>  more > 'q' \<newline>\<newline>z''"
  note c1 = escape_correct [of "u ''a<b & \"c\" > 'd' ''"]
  note c2 = escape_correct [of "u ''**<b>** & **\"**x''"]
  note c3 = escape_correct [of ?D]
  have e1: "escape_spec (u ''a<b & \"c\" > 'd' '') = u ''a&lt;b &amp; &quot;c&quot; &gt; 'd' ''"
    by code_simp
  have e2: "concat (map html_of (bold_segments (u ''**<b>** & **\"**x''))) =
      u ''<strong>&lt;b&gt;</strong> &amp; <strong>&quot;</strong>x''"
    by code_simp
  from c1 have e3: "esc_char 39 = [39]" by blast
  have bl: "body_lines (split_nl (py_strip ?D)) = ?l # ?ls" by code_simp
  have pre: "py_strip ?l \<noteq> [] \<and> \<not> re_match_rule (py_strip ?l) \<and> \<not> starts_citation (py_strip ?l) \<and>
        \<not> re_match_emoji (py_strip ?l)" by code_simp
  from c3 have "\<forall>l ls. py_strip l \<noteq> [] \<and> \<not> re_match_rule (py_strip l) \<and> \<not> starts_citation (py_strip l) \<and>
        \<not> re_match_emoji (py_strip l) \<longrightarrow>
      parse_lines (l # ls) =
        (u ''<p>'' @ concat (map html_of (bold_segments (para_text l ls))) @ u ''</p>'') #
        parse_lines (dropWhile (\<lambda>x. \<not> para_break (py_strip x)) ls)" by blast
  with pre have p1: "parse_lines (?l # ?ls) =
        (u ''<p>'' @ concat (map html_of (bold_segments (para_text ?l ?ls))) @ u ''</p>'') #
        parse_lines (dropWhile (\<lambda>x. \<not> para_break (py_strip x)) ?ls)" by blast
  have h: "u ''<p>'' @ concat (map html_of (bold_segments (para_text ?l ?ls))) @ u ''</p>'' =
      u ''<p>A <strong>&lt;b&gt;</strong> &amp; <strong>&quot;</strong>x more &gt; 'q'</p>''"
    by code_simp
  have r: "parse_lines (dropWhile (\<lambda>x. \<not> para_break (py_strip x)) ?ls) = [u ''<p>z</p>'']"
    by code_simp
  have j: "join [nl] [u ''<p>A <strong>&lt;b&gt;</strong> &amp; <strong>&quot;</strong>x more &gt; 'q'</p>'',
       u ''<p>z</p>''] =
     u ''<p>A <strong>&lt;b&gt;</strong> &amp; <strong>&quot;</strong>x more &gt; 'q'</p>\<newline><p>z</p>''"
    by code_simp
  from c3 have "md_to_html ?D = join [nl] (parse_lines (body_lines (split_nl (py_strip ?D))))"
    by blast
  then have md: "md_to_html ?D =
      u ''<p>A <strong>&lt;b&gt;</strong> &amp; <strong>&quot;</strong>x more &gt; 'q'</p>\<newline><p>z</p>''"
    by (simp only: bl p1 h r j)
  have mem: "u ''<p>z</p>'' \<in> set (parse_lines (?l # ?ls))"
    by (simp only: p1 h r) simp
  from c3 have "\<forall>lines part. part \<in> set (parse_lines lines) \<longrightarrow>
      part = u ''<hr>'' \<or> (\<exists>l\<in>set lines. part = citation_html l) \<or>
      (\<exists>l\<in>set lines. part = heading_html l) \<or>
      (\<exists>pre l rest. lines = pre @ l # rest \<and>
         part = u ''<p>'' @ concat (map html_of (bold_segments (para_text l rest))) @ u ''</p>'')"
    by blast
  with mem have kinds: "u ''<p>z</p>'' = u ''<hr>'' \<or> (\<exists>l\<in>set (?l # ?ls). u ''<p>z</p>'' = citation_html l) \<or>
      (\<exists>l\<in>set (?l # ?ls). u ''<p>z</p>'' = heading_html l) \<or>
      (\<exists>pre l rest. ?l # ?ls = pre @ l # rest \<and>
         u ''<p>z</p>'' = u ''<p>'' @ concat (map html_of (bold_segments (para_text l rest))) @ u ''</p>'')"
    by blast
  from c1 c2 e1 e2 e3 md mem kinds show ?thesis by simp
qed

text \<open>
  Claim C4. Inline rendering escapes the text and then runs the replacement of the bold
  pattern on the escaped text. A search of that pattern fails exactly when the text has no
  pair of \<open>**\<close> with a non-empty run free of newlines between them, and then the
  replacement leaves the text as it is: a \<open>**\<close> with no later close stays literal.
  When the search succeeds, its match is the leftmost one and its group the shortest one
  from there (non-greedy); the group, which is already-escaped text, is put between
  \<open><strong>\<close> and \<open></strong>\<close>, the text before it is kept, and the replacement goes
  on behind the closing \<open>**\<close>, so matches do not overlap. The input
  \<open>Team wins **big game** tonight.\<close> renders as
  \<open>Team wins <strong>big game</strong> tonight.\<close>.
\<close>

theorem inline_format_emphasis:
  "inline_format text = re_sub_bold (escape text) \<and>
   dstar = u ''**'' \<and>
   (\<forall>s. (search_bold s = None) =
     (\<nexists>pre g r. s = pre @ dstar @ g @ dstar @ r \<and> g \<noteq> [] \<and> nl \<notin> set g)) \<and>
   (\<forall>s. search_bold s = None \<longrightarrow> re_sub_bold s = s) \<and>
   (\<forall>s pre g r. search_bold s = Some (pre, g, r) \<longrightarrow>
      s = pre @ dstar @ g @ dstar @ r \<and> g \<noteq> [] \<and> nl \<notin> set g \<and>
      (\<forall>pre' g' r'. s = pre' @ dstar @ g' @ dstar @ r' \<and> g' \<noteq> [] \<and> nl \<notin> set g' \<longrightarrow>
         length pre < length pre' \<or> (length pre = length pre' \<and> length g \<le> length g')) \<and>
      re_sub_bold s = pre @ u ''<strong>'' @ g @ u ''</strong>'' @ re_sub_bold r) \<and>
   inline_format (u ''Team wins **big game** tonight.'') =
     u ''Team wins <strong>big game</strong> tonight.''"
proof -
  have ex: "inline_format (u ''Team wins **big game** tonight.'') =
      u ''Team wins <strong>big game</strong> tonight.''"
    by code_simp
  have some: "s = pre @ dstar @ g @ dstar @ r \<and> g \<noteq> [] \<and> nl \<notin> set g \<and>
      (\<forall>pre' g' r'. s = pre' @ dstar @ g' @ dstar @ r' \<and> g' \<noteq> [] \<and> nl \<notin> set g' \<longrightarrow>
         length pre < length pre' \<or> (length pre = length pre' \<and> length g \<le> length g')) \<and>
      re_sub_bold s = pre @ u ''<strong>'' @ g @ u ''</strong>'' @ re_sub_bold r"
    if sb: "search_bold s = Some (pre, g, r)" for s pre g r
    using search_bold_decomp [OF sb] search_bold_leftmost_lazy [OF sb] re_sub_bold_Some [OF sb]
    by blast
  from ex some show ?thesis
    using search_bold_None_iff re_sub_bold_None
    by (simp add: inline_format_def dstar_def)
qed

theorem inline_format_emphasis_witness:
  "re_sub_bold (u ''a **b** c **d'') = u ''a <strong>b</strong> c **d'' \<and>
   inline_format (u ''x<y **'') = u ''x&lt;y **''"
proof -
  note c = inline_format_emphasis [of "u ''x<y **''"]
  have s1: "search_bold (u ''a **b** c **d'') = Some (u ''a '', u ''b'', u '' c **d'')"
    by code_simp
  have s2: "search_bold (u '' c **d'') = None"
    by code_simp
  have s3: "search_bold (escape (u ''x<y **'')) = None"
    by code_simp
  have e: "escape (u ''x<y **'') = u ''x&lt;y **''"
    by code_simp
  from c s1 have "re_sub_bold (u ''a **b** c **d'') =
      u ''a '' @ u ''<strong>'' @ u ''b'' @ u ''</strong>'' @ re_sub_bold (u '' c **d'')"
    by blast
  moreover from c s2 have "re_sub_bold (u '' c **d'') = u '' c **d''" by blast
  moreover from c s3 have "re_sub_bold (escape (u ''x<y **'')) = escape (u ''x<y **'')" by blast
  moreover from c have "inline_format (u ''x<y **'') = re_sub_bold (escape (u ''x<y **''))" by blast
  ultimately show ?thesis
    using e by (simp add: u_def)
qed

text \<open>
  Claim C5, as amended. The summary extractor scans the lines of the trimmed text from the
  top, the title line included, and the first line with a match of the non-greedy bold
  pattern decides: its group, with one trailing period removed if there is one, is the
  result, cut to its first 117 characters followed by three periods when it is longer than
  120 characters. So a bold span of 150 characters gives exactly 120 characters, the
  first 117 characters of the span and the ellipsis; the span's own last character is
  never among them, and whatever the 117th character is (a period, too) stays in front of
  the ellipsis. With no bold span in any line, or none in the whole text, the result is
  the empty string.
\<close>

theorem extract_lede_correct:
  "extract_lede text = lede_of_lines (split_nl (py_strip text)) \<and>
   (search_bold text = None \<longrightarrow> extract_lede text = []) \<and>
   ((\<forall>l \<in> set (split_nl (py_strip text)). search_bold l = None) \<longrightarrow> extract_lede text = []) \<and>
   (\<forall>before l after pre g r.
      split_nl (py_strip text) = before @ l # after \<and>
      (\<forall>x \<in> set before. search_bold x = None) \<and> search_bold l = Some (pre, g, r) \<longrightarrow>
      extract_lede text =
        (let h = (if endswith g [dot] then butlast g else g)
         in if length h > 120 then take 117 h @ u ''...'' else h) \<and>
      (length g = 150 \<longrightarrow>
         extract_lede text = take 117 g @ u ''...'' \<and> length (extract_lede text) = 120))"
proof (intro conjI allI impI)
  show "extract_lede text = lede_of_lines (split_nl (py_strip text))"
    by (rule extract_lede_def)
next
  assume "search_bold text = None"
  then show "extract_lede text = []" by (rule extract_lede_no_bold)
next
  assume "\<forall>l \<in> set (split_nl (py_strip text)). search_bold l = None"
  then show "extract_lede text = []"
    unfolding extract_lede_def by (rule lede_of_lines_none)
next
  fix before l after pre g r
  assume a: "split_nl (py_strip text) = before @ l # after \<and>
      (\<forall>x \<in> set before. search_bold x = None) \<and> search_bold l = Some (pre, g, r)"
  then show e: "extract_lede text =
        (let h = (if endswith g [dot] then butlast g else g)
         in if length h > 120 then take 117 h @ u ''...'' else h)"
    using extract_lede_first by blast
  assume len: "length g = 150"
  from e show e2: "extract_lede text = take 117 g @ u ''...''"
    unfolding lede_150 [OF len] .
  show "length (extract_lede text) = 120"
    unfolding e2 using len by (rule len_ellipsis)
qed


theorem extract_lede_correct_witness:
  "extract_lede (u ''Tucson Daily Brief **Top story.**\<newline>\<newline>**Second** story'') = u ''Top story'' \<and>
   extract_lede (u ''no bold * here **\<newline>at all **'') = []"
proof -
  note c1 = extract_lede_correct [of "u ''Tucson Daily Brief **Top story.**\<newline>\<newline>**Second** story''"]
  note c2 = extract_lede_correct [of "u ''no bold * here **\<newline>at all **''"]
  have sp: "split_nl (py_strip (u ''Tucson Daily Brief **Top story.**\<newline>\<newline>**Second** story'')) =
      [] @ u ''Tucson Daily Brief **Top story.**'' # [[], u ''**Second** story'']"
    by code_simp
  have sb: "search_bold (u ''Tucson Daily Brief **Top story.**'') =
      Some (u ''Tucson Daily Brief '', u ''Top story.'', [])"
    by code_simp
  have h: "(let h = (if endswith (u ''Top story.'') [dot] then butlast (u ''Top story.'') else u ''Top story.'')
         in if length h > 120 then take 117 h @ u ''...'' else h) = u ''Top story''"
    by code_simp
  have none: "search_bold (u ''no bold * here **\<newline>at all **'') = None"
    by code_simp
  have e: "\<forall>x \<in> set ([]::pystr list). search_bold x = None" by simp
  from c1 have "\<forall>before l after pre g r.
      split_nl (py_strip (u ''Tucson Daily Brief **Top story.**\<newline>\<newline>**Second** story'')) = before @ l # after \<and>
      (\<forall>x \<in> set before. search_bold x = None) \<and> search_bold l = Some (pre, g, r) \<longrightarrow>
      extract_lede (u ''Tucson Daily Brief **Top story.**\<newline>\<newline>**Second** story'') =
        (let h = (if endswith g [dot] then butlast g else g)
         in if length h > 120 then take 117 h @ u ''...'' else h) \<and>
      (length g = 150 \<longrightarrow>
         extract_lede (u ''Tucson Daily Brief **Top story.**\<newline>\<newline>**Second** story'') = take 117 g @ u ''...'' \<and> length (extract_lede (u ''Tucson Daily Brief **Top story.**\<newline>\<newline>**Second** story'')) = 120)"
    by (elim conjE)
  from this [rule_format, of "[]" "u ''Tucson Daily Brief **Top story.**''" "[[], u ''**Second** story'']"
      "u ''Tucson Daily Brief ''" "u ''Top story.''" "[]", OF conjI [OF sp conjI [OF e sb]]]
  have 1: "extract_lede (u ''Tucson Daily Brief **Top story.**\<newline>\<newline>**Second** story'') =
        (let h = (if endswith (u ''Top story.'') [dot] then butlast (u ''Top story.'') else u ''Top story.'')
         in if length h > 120 then take 117 h @ u ''...'' else h)"
    by (elim conjE)
  from c2 have "search_bold (u ''no bold * here **\<newline>at all **'') = None \<longrightarrow>
      extract_lede (u ''no bold * here **\<newline>at all **'') = []"
    by (elim conjE)
  with none have 2: "extract_lede (u ''no bold * here **\<newline>at all **'') = []"
    by (rule rev_mp)
  from 1 h 2 show ?thesis by (simp only: simp_thms)
qed


text \<open>
  Claim C5 as it was stated fails where it says that no period stands before the
  ellipsis: a span of 150 characters whose 117th character is a period gives 120
  characters that end in four periods.
\<close>

theorem extract_lede_period_before_ellipsis:
  "length (replicate 116 97 @ [dot] @ replicate 33 (98::int)) = 150 \<and>
   search_bold (dstar @ (replicate 116 97 @ [dot] @ replicate 33 98) @ dstar) =
     Some ([], replicate 116 97 @ [dot] @ replicate 33 98, []) \<and>
   extract_lede (dstar @ (replicate 116 97 @ [dot] @ replicate 33 98) @ dstar) =
     replicate 116 97 @ [dot] @ u ''...''"
proof (intro conjI)
  show "length (replicate 116 97 @ [dot] @ replicate 33 (98::int)) = 150" by simp
  show "search_bold (dstar @ (replicate 116 97 @ [dot] @ replicate 33 98) @ dstar) =
     Some ([], replicate 116 97 @ [dot] @ replicate 33 98, [])"
    by code_simp
  show "extract_lede (dstar @ (replicate 116 97 @ [dot] @ replicate 33 98) @ dstar) =
     replicate 116 97 @ [dot] @ u ''...''"
    by code_simp
qed

text \<open>
  Claim C2. The block loop runs over the lines of the trimmed document from the title
  skip to the footer boundary. The lines from the boundary on are all footer lines (their
  trimmed text starts with one of the four prefixes), the boundary is 0 or the line just
  before it is no footer line, so exactly the trailing run of footer lines is left out;
  every line at or above a line that is no footer line lies inside the boundary, so a
  footer-prefixed line with, say, a blank line somewhere below it is parsed as content.
  A document that ends with the lines \<open>Briefing saved: 2026-02-18 06:00\<close> and
  \<open>Sources fetched: 12\<close> is rendered from the lines before them alone.
\<close>

theorem footer_stripping:
  "md_to_html text =
     join [nl] (parse_lines (drop (title_skip (split_nl (py_strip text)))
       (take (footer_end (split_nl (py_strip text))) (split_nl (py_strip text))))) \<and>
   (\<forall>lines.
      footer_end lines \<le> length lines \<and>
      (\<forall>l \<in> set (drop (footer_end lines) lines). is_footer l) \<and>
      (footer_end lines = 0 \<or> \<not> is_footer (lines ! (footer_end lines - 1))) \<and>
      (\<forall>m k. m < length lines \<and> \<not> is_footer (lines ! m) \<and> k \<le> m \<longrightarrow> k < footer_end lines)) \<and>
   (\<forall>l. is_footer l =
      (startswith (py_strip l) (u ''Briefing saved:'') \<or> startswith (py_strip l) (u ''Sources fetched:'') \<or>
       startswith (py_strip l) (u ''Failed sources:'') \<or> startswith (py_strip l) (u ''Next update:''))) \<and>
   footer1 = u ''Briefing saved: 2026-02-18 06:00'' \<and> footer2 = u ''Sources fetched: 12'' \<and>
   (\<forall>x. md_to_html (x @ nl # footer1 @ nl # footer2) =
      join [nl] (parse_lines (body_lines
        (if list_all py_isspace x then [] else split_nl (py_lstrip x)))))"
proof -
  have inside: "k < footer_end lines"
    if "m < length lines \<and> \<not> is_footer (lines ! m) \<and> k \<le> m" for lines m k
  proof -
    from that have "m < footer_end lines" using nonfooter_inside by blast
    with that show ?thesis by simp
  qed
  have bound: "footer_end lines \<le> length lines \<and>
      (\<forall>l \<in> set (drop (footer_end lines) lines). is_footer l) \<and>
      (footer_end lines = 0 \<or> \<not> is_footer (lines ! (footer_end lines - 1))) \<and>
      (\<forall>m k. m < length lines \<and> \<not> is_footer (lines ! m) \<and> k \<le> m \<longrightarrow> k < footer_end lines)"
    for lines
    using footer_end_le [of lines] footer_run_all [of lines] footer_end_stops [of lines] inside [of _ lines]
    by blast
  have "md_to_html text =
     join [nl] (parse_lines (drop (title_skip (split_nl (py_strip text)))
       (take (footer_end (split_nl (py_strip text))) (split_nl (py_strip text)))))"
    by (simp only: md_to_html_def body_lines_def)
  moreover have "\<forall>l. is_footer l =
      (startswith (py_strip l) (u ''Briefing saved:'') \<or> startswith (py_strip l) (u ''Sources fetched:'') \<or>
       startswith (py_strip l) (u ''Failed sources:'') \<or> startswith (py_strip l) (u ''Next update:''))"
    by (simp add: is_footer_def Let_def)
  ultimately show ?thesis
    using bound md_to_html_footers footer1_def footer2_def by blast
qed

theorem footer_stripping_witness:
  "md_to_html (u ''Tucson Daily Brief\<newline>\<newline>Next update: soon\<newline>\<newline>**Lead.** Body\<newline>Failed sources: 0\<newline>  Next update: 7am  \<newline>'') =
     u ''<p>Next update: soon</p>\<newline><p><strong>Lead.</strong> Body</p>'' \<and>
   md_to_html (u ''Hello\<newline>Briefing saved: 2026-02-18 06:00\<newline>Sources fetched: 12'') = u ''<p>Hello</p>'' \<and>
   0 < footer_end [u ''Next update: a'', [], u ''Next update: b'']"
proof -
  note c1 = footer_stripping [of "u ''Tucson Daily Brief\<newline>\<newline>Next update: soon\<newline>\<newline>**Lead.** Body\<newline>Failed sources: 0\<newline>  Next update: 7am  \<newline>''"]
  have e1: "join [nl] (parse_lines (drop (title_skip (split_nl (py_strip (u ''Tucson Daily Brief\<newline>\<newline>Next update: soon\<newline>\<newline>**Lead.** Body\<newline>Failed sources: 0\<newline>  Next update: 7am  \<newline>''))))
       (take (footer_end (split_nl (py_strip (u ''Tucson Daily Brief\<newline>\<newline>Next update: soon\<newline>\<newline>**Lead.** Body\<newline>Failed sources: 0\<newline>  Next update: 7am  \<newline>'')))) (split_nl (py_strip (u ''Tucson Daily Brief\<newline>\<newline>Next update: soon\<newline>\<newline>**Lead.** Body\<newline>Failed sources: 0\<newline>  Next update: 7am  \<newline>'')))))) =
      u ''<p>Next update: soon</p>\<newline><p><strong>Lead.</strong> Body</p>''"
    by code_simp
  from c1 e1 have 1: "md_to_html (u ''Tucson Daily Brief\<newline>\<newline>Next update: soon\<newline>\<newline>**Lead.** Body\<newline>Failed sources: 0\<newline>  Next update: 7am  \<newline>'') =
     u ''<p>Next update: soon</p>\<newline><p><strong>Lead.</strong> Body</p>''"
    by (elim conjE) (erule trans)
  from c1 have "md_to_html (u ''Hello'' @ nl # footer1 @ nl # footer2) =
      join [nl] (parse_lines (body_lines
        (if list_all py_isspace (u ''Hello'') then [] else split_nl (py_lstrip (u ''Hello'')))))"
    by blast
  moreover have "join [nl] (parse_lines (body_lines
        (if list_all py_isspace (u ''Hello'') then [] else split_nl (py_lstrip (u ''Hello''))))) = u ''<p>Hello</p>''"
    by code_simp
  moreover have "u ''Hello'' @ nl # footer1 @ nl # footer2 =
      u ''Hello\<newline>Briefing saved: 2026-02-18 06:00\<newline>Sources fetched: 12''"
    by code_simp
  ultimately have 2: "md_to_html (u ''Hello\<newline>Briefing saved: 2026-02-18 06:00\<newline>Sources fetched: 12'') = u ''<p>Hello</p>''"
    by simp
  have nf: "(1::nat) < length [u ''Next update: a'', [], u ''Next update: b''] \<and>
      \<not> is_footer ([u ''Next update: a'', [], u ''Next update: b''] ! 1) \<and> (0::nat) \<le> 1"
    by code_simp
  from c1 have "\<forall>m k. m < length [u ''Next update: a'', [], u ''Next update: b''] \<and>
      \<not> is_footer ([u ''Next update: a'', [], u ''Next update: b''] ! m) \<and> k \<le> m \<longrightarrow>
      k < footer_end [u ''Next update: a'', [], u ''Next update: b'']"
    by blast
  from this [rule_format, OF nf] have 3: "0 < footer_end [u ''Next update: a'', [], u ''Next update: b'']" .
  from 1 2 3 show ?thesis by (simp only: simp_thms)
qed

text \<open>
  Claim C6, as amended. Every line inside the parse boundary whose trimmed text starts
  with the newspaper glyph or the page glyph makes the parser emit a citation paragraph.
  Its text is the trimmed line with every occurrence of either marker glyph removed, not
  only the leading one, and then trimmed again; it is escaped in the markup. When the
  rest of the line holds no further marker glyph, that is the line with the leading glyph
  and the surrounding whitespace stripped and the rest unchanged; the line made of the
  newspaper glyph and \<open> Arizona Daily Star\<close> gives the text \<open>Arizona Daily Star\<close>.
\<close>

theorem citation_block:
  "md_to_html text = join [nl] (parse_lines (body_lines (split_nl (py_strip text)))) \<and>
   (\<forall>l \<in> set (body_lines (split_nl (py_strip text))).
      startswith (py_strip l) [newspaper] \<or> startswith (py_strip l) [page] \<longrightarrow>
      citation_html l \<in> set (parse_lines (body_lines (split_nl (py_strip text))))) \<and>
   (\<forall>l. citation_html l =
      u ''<p class=\"source\">'' @
      escape (py_strip (replace_char page [] (replace_char newspaper [] (py_strip l)))) @ u ''</p>'') \<and>
   (\<forall>c rest. (c = newspaper \<or> c = page) \<and> newspaper \<notin> set rest \<and> page \<notin> set rest \<longrightarrow>
      py_strip (replace_char page [] (replace_char newspaper [] (c # rest))) = py_strip rest) \<and>
   citation_html (newspaper # u '' Arizona Daily Star'') = u ''<p class=\"source\">Arizona Daily Star</p>''"
proof (intro conjI allI impI ballI)
  show "md_to_html text = join [nl] (parse_lines (body_lines (split_nl (py_strip text))))"
    by (rule md_to_html_def)
next
  fix l
  assume "l \<in> set (body_lines (split_nl (py_strip text)))"
    and "startswith (py_strip l) [newspaper] \<or> startswith (py_strip l) [page]"
  then show "citation_html l \<in> set (parse_lines (body_lines (split_nl (py_strip text))))"
    by (intro parse_lines_citation) (auto simp: starts_citation_def)
next
  fix l
  show "citation_html l =
      u ''<p class=\"source\">'' @
      escape (py_strip (replace_char page [] (replace_char newspaper [] (py_strip l)))) @ u ''</p>''"
    by (rule citation_html_def)
next
  fix c rest
  assume "(c = newspaper \<or> c = page) \<and> newspaper \<notin> set rest \<and> page \<notin> set rest"
  then show "py_strip (replace_char page [] (replace_char newspaper [] (c # rest))) = py_strip rest"
    using strip_marker [of c rest] by simp
next
  show "citation_html (newspaper # u '' Arizona Daily Star'') = u ''<p class=\"source\">Arizona Daily Star</p>''"
    by code_simp
qed

theorem citation_block_witness:
  "u ''<p class=\"source\">Arizona Daily Star</p>'' \<in>
     set (parse_lines (body_lines (split_nl (py_strip (u ''Story text'' @ nl # newspaper # u '' Arizona Daily Star''))))) \<and>
   py_strip (replace_char page [] (replace_char newspaper [] (page # u '' City memo <draft> ''))) = u ''City memo <draft>''"
proof -
  note c = citation_block [of "u ''Story text'' @ nl # newspaper # u '' Arizona Daily Star''"]
  have m: "newspaper # u '' Arizona Daily Star'' \<in>
      set (body_lines (split_nl (py_strip (u ''Story text'' @ nl # newspaper # u '' Arizona Daily Star''))))"
    by code_simp
  have s: "startswith (py_strip (newspaper # u '' Arizona Daily Star'')) [newspaper] \<or>
      startswith (py_strip (newspaper # u '' Arizona Daily Star'')) [page]"
    by code_simp
  from c have "\<forall>l \<in> set (body_lines (split_nl (py_strip (u ''Story text'' @ nl # newspaper # u '' Arizona Daily Star'')))).
      startswith (py_strip l) [newspaper] \<or> startswith (py_strip l) [page] \<longrightarrow>
      citation_html l \<in> set (parse_lines (body_lines (split_nl (py_strip (u ''Story text'' @ nl # newspaper # u '' Arizona Daily Star'')))))"
    by (elim conjE)
  from this [rule_format, OF m s]
  have 1: "citation_html (newspaper # u '' Arizona Daily Star'') \<in>
      set (parse_lines (body_lines (split_nl (py_strip (u ''Story text'' @ nl # newspaper # u '' Arizona Daily Star'')))))" .
  from c have e: "citation_html (newspaper # u '' Arizona Daily Star'') = u ''<p class=\"source\">Arizona Daily Star</p>''"
    by (elim conjE)
  have g: "(page = newspaper \<or> page = page) \<and> newspaper \<notin> set (u '' City memo <draft> '') \<and>
      page \<notin> set (u '' City memo <draft> '')"
    by code_simp
  from c have "\<forall>c rest. (c = newspaper \<or> c = page) \<and> newspaper \<notin> set rest \<and> page \<notin> set rest \<longrightarrow>
      py_strip (replace_char page [] (replace_char newspaper [] (c # rest))) = py_strip rest"
    by (elim conjE)
  from this [rule_format, OF g]
  have 2: "py_strip (replace_char page [] (replace_char newspaper [] (page # u '' City memo <draft> ''))) =
      py_strip (u '' City memo <draft> '')" .
  have 3: "py_strip (u '' City memo <draft> '') = u ''City memo <draft>''" by code_simp
  from 1 e 2 3 show ?thesis by (simp only: simp_thms)
qed

text \<open>
  Claim C6 as it was stated fails on a citation line with a marker glyph further right:
  the page glyph inside the line goes too, so the rest of the line is not kept unchanged.
\<close>

theorem citation_inner_glyph_removed:
  "md_to_html (newspaper # u '' Star '' @ page # u '' p4'') = u ''<p class=\"source\">Star  p4</p>'' \<and>
   md_to_html (newspaper # u '' Star '' @ page # u '' p4'') \<noteq>
     u ''<p class=\"source\">'' @ escape (py_strip (tl (newspaper # u '' Star '' @ page # u '' p4''))) @ u ''</p>'' \<and>
   py_strip (tl (newspaper # u '' Star '' @ page # u '' p4'')) = u ''Star '' @ page # u '' p4''"
  by code_simp

text \<open>
  Claim C7, as amended. A line is classified on its trimmed text: blank lines are
  skipped, then the tests run in the order rule, citation, heading, paragraph, and the
  first that holds decides. The two citation glyphs lie in the character class of the
  heading test and are taken by the citation test before it; a line that passes the
  heading test is neither blank nor a rule line nor does it start with \<open>**\<close>. So every
  line inside the parse boundary whose trimmed text starts with a character of the class
  and not with a citation glyph makes the parser emit a heading, which holds the whole
  trimmed line (leading and trailing whitespace removed, no marker removed), escaped and
  with no emphasis processing. The line of U+1F3DB, U+FE0F and \<open> Government\<close> gives a
  heading with exactly that text.
\<close>

theorem heading_block:
  "md_to_html text = join [nl] (parse_lines (body_lines (split_nl (py_strip text)))) \<and>
   (\<forall>l ls. parse_lines (l # ls) =
     (if py_strip l = [] then parse_lines ls
      else if re_match_rule (py_strip l) then u ''<hr>'' # parse_lines ls
      else if starts_citation (py_strip l) then citation_html l # parse_lines ls
      else if re_match_emoji (py_strip l) then heading_html l # parse_lines ls
      else
        (u ''<p>'' @ inline_format (join (u '' '')
            (py_strip l # map py_strip (takeWhile (\<lambda>x. \<not> para_break (py_strip x)) ls))) @ u ''</p>'') #
        parse_lines (dropWhile (\<lambda>x. \<not> para_break (py_strip x)) ls))) \<and>
   (\<forall>line. starts_citation line = (startswith line [newspaper] \<or> startswith line [page])) \<and>
   (\<forall>line. starts_citation line \<longrightarrow> re_match_emoji line) \<and>
   (\<forall>line. re_match_emoji line \<longrightarrow>
      line \<noteq> [] \<and> \<not> re_match_rule line \<and> \<not> startswith line dstar) \<and>
   (\<forall>l \<in> set (body_lines (split_nl (py_strip text))).
      re_match_emoji (py_strip l) \<and> \<not> starts_citation (py_strip l) \<longrightarrow>
      heading_html l \<in> set (parse_lines (body_lines (split_nl (py_strip text))))) \<and>
   (\<forall>l. heading_html l = u ''<h2>'' @ escape (py_strip l) @ u ''</h2>'') \<and>
   parse_lines [[0x1F3DB, 0xFE0F] @ u '' Government''] =
     [u ''<h2>'' @ [0x1F3DB, 0xFE0F] @ u '' Government</h2>'']"
proof (intro conjI allI impI ballI)
  show "md_to_html text = join [nl] (parse_lines (body_lines (split_nl (py_strip text))))"
    by (rule md_to_html_def)
next
  fix l ls
  show "parse_lines (l # ls) =
     (if py_strip l = [] then parse_lines ls
      else if re_match_rule (py_strip l) then u ''<hr>'' # parse_lines ls
      else if starts_citation (py_strip l) then citation_html l # parse_lines ls
      else if re_match_emoji (py_strip l) then heading_html l # parse_lines ls
      else
        (u ''<p>'' @ inline_format (join (u '' '')
            (py_strip l # map py_strip (takeWhile (\<lambda>x. \<not> para_break (py_strip x)) ls))) @ u ''</p>'') #
        parse_lines (dropWhile (\<lambda>x. \<not> para_break (py_strip x)) ls))"
    by (rule parse_lines_order)
next
  fix line
  show "starts_citation line = (startswith line [newspaper] \<or> startswith line [page])"
    by (rule starts_citation_def)
next
  fix line
  assume "starts_citation line"
  then show "re_match_emoji line" using citation_facts by blast
next
  fix line
  assume e: "re_match_emoji line"
  from emoji_facts [OF e] show "line \<noteq> []" by blast
  from emoji_facts [OF e] show "\<not> re_match_rule line" by blast
  from emoji_facts [OF e] show "\<not> startswith line dstar" by blast
next
  fix l
  assume "l \<in> set (body_lines (split_nl (py_strip text)))"
    and "re_match_emoji (py_strip l) \<and> \<not> starts_citation (py_strip l)"
  then show "heading_html l \<in> set (parse_lines (body_lines (split_nl (py_strip text))))"
    by (intro parse_lines_heading) auto
next
  fix l
  show "heading_html l = u ''<h2>'' @ escape (py_strip l) @ u ''</h2>''"
    by (rule heading_html_def)
next
  show "parse_lines [[0x1F3DB, 0xFE0F] @ u '' Government''] =
     [u ''<h2>'' @ [0x1F3DB, 0xFE0F] @ u '' Government</h2>'']"
    by code_simp
qed

theorem heading_block_witness:
  "u ''<h2>'' @ [0x2600] @ u '' Weather &amp; **sky**</h2>'' \<in>
     set (parse_lines (body_lines (split_nl (py_strip
       (u ''Story text'' @ nl # u ''  '' @ [0x2600] @ u '' Weather & **sky** '' @ nl # u ''more''))))) \<and>
   re_match_emoji [newspaper]"
proof -
  note c = heading_block [of "u ''Story text'' @ nl # u ''  '' @ [0x2600] @ u '' Weather & **sky** '' @ nl # u ''more''"]
  have m: "u ''  '' @ [0x2600] @ u '' Weather & **sky** '' \<in>
      set (body_lines (split_nl (py_strip
        (u ''Story text'' @ nl # u ''  '' @ [0x2600] @ u '' Weather & **sky** '' @ nl # u ''more''))))"
    by code_simp
  have s: "re_match_emoji (py_strip (u ''  '' @ [0x2600] @ u '' Weather & **sky** '')) \<and>
      \<not> starts_citation (py_strip (u ''  '' @ [0x2600] @ u '' Weather & **sky** ''))"
    by code_simp
  from c have "\<forall>l \<in> set (body_lines (split_nl (py_strip
        (u ''Story text'' @ nl # u ''  '' @ [0x2600] @ u '' Weather & **sky** '' @ nl # u ''more'')))).
      re_match_emoji (py_strip l) \<and> \<not> starts_citation (py_strip l) \<longrightarrow>
      heading_html l \<in> set (parse_lines (body_lines (split_nl (py_strip
        (u ''Story text'' @ nl # u ''  '' @ [0x2600] @ u '' Weather & **sky** '' @ nl # u ''more'')))))"
    by (elim conjE)
  from this [rule_format, OF m s]
  have 1: "heading_html (u ''  '' @ [0x2600] @ u '' Weather & **sky** '') \<in>
      set (parse_lines (body_lines (split_nl (py_strip
        (u ''Story text'' @ nl # u ''  '' @ [0x2600] @ u '' Weather & **sky** '' @ nl # u ''more'')))))" .
  have e: "heading_html (u ''  '' @ [0x2600] @ u '' Weather & **sky** '') =
      u ''<h2>'' @ [0x2600] @ u '' Weather &amp; **sky**</h2>''"
    by code_simp
  have sc: "starts_citation [newspaper]" by code_simp
  from c have "\<forall>line. starts_citation line \<longrightarrow> re_match_emoji line" by (elim conjE)
  from this [rule_format, OF sc] have 2: "re_match_emoji [newspaper]" .
  from 1 e 2 show ?thesis by (simp only: simp_thms)
qed

text \<open>
  Claim C7 as it was stated fails where it says that the heading holds the entire line
  verbatim: a heading line with a space at its end gives a heading without that space.
\<close>

theorem heading_trailing_space_trimmed:
  "split_nl (py_strip (u ''Top'' @ nl # [0x1F3DB, 0xFE0F] @ u '' Government '' @ nl # u ''Body'')) =
     [u ''Top'', [0x1F3DB, 0xFE0F] @ u '' Government '', u ''Body''] \<and>
   md_to_html (u ''Top'' @ nl # [0x1F3DB, 0xFE0F] @ u '' Government '' @ nl # u ''Body'') =
     u ''<p>Top</p>'' @ nl # u ''<h2>'' @ [0x1F3DB, 0xFE0F] @ u '' Government</h2>'' @ nl # u ''<p>Body</p>'' \<and>
   u ''<h2>'' @ escape ([0x1F3DB, 0xFE0F] @ u '' Government '') @ u ''</h2>'' \<notin>
     set (parse_lines (body_lines (split_nl (py_strip
       (u ''Top'' @ nl # [0x1F3DB, 0xFE0F] @ u '' Government '' @ nl # u ''Body'')))))"
  by code_simp






end
